theory Spec2Isabelle
  imports Main "HOL-Library.Word"
begin

unbundle bit_operations_syntax

section \<open>Data model of vutrace.cpp\<close>

type_synonym u8 = "8 word"
type_synonym u16 = "16 word"
type_synonym u32 = "32 word"
type_synonym u128 = "128 word"

text \<open>
  A little-endian value from its bytes, and the bytes of a value.
\<close>

definition le_word :: "u8 list \<Rightarrow> 'a::len word" where
  "le_word bs = foldr (\<lambda>b w. ucast b OR push_bit 8 w) bs 0"

definition le_bytes :: "nat \<Rightarrow> 'a::len word \<Rightarrow> u8 list" where
  "le_bytes n w = map (\<lambda>i. ucast (drop_bit (8 * i) w)) [0..<n]"

text \<open>
  The register file \<^verbatim>\<open>VURegs\<close> is declared in the missing header pcsx2defs.h. It is kept
  as the bytes of the structure. Where the members \<^verbatim>\<open>VF[32]\<close>, \<^verbatim>\<open>VI[32]\<close>, \<^verbatim>\<open>ACC\<close>, \<^verbatim>\<open>q\<close>
  and \<^verbatim>\<open>p\<close> lie in it and how many bytes one register of each takes is a parameter of the
  functions that use it.
\<close>

record VURegs_layout =
  sizeof_VURegs :: nat
  offsetof_VF :: nat
  sizeof_VF_reg :: nat
  offsetof_VI :: nat
  sizeof_VI_reg :: nat
  offsetof_ACC :: nat
  sizeof_ACC :: nat
  offsetof_q :: nat
  sizeof_q :: nat
  offsetof_p :: nat
  sizeof_p :: nat

type_synonym VURegs = "u8 list"

record Snapshot =
  registers :: VURegs
  memory :: "u8 list"
  program :: "u8 list"
  read_addr :: u32
  read_size :: u32
  write_addr :: u32
  write_size :: u32

record Instruction =
  is_executed :: bool
  branch_to_times :: "u32 \<rightharpoonup> nat"
  branch_from_times :: "u32 \<rightharpoonup> nat"
  times_executed :: nat
  disassembly :: string

text \<open>
  Of the session, the fields that the trace reader and the navigation use; the highlight
  and the comments belong to the windows and are left out.
\<close>

record AppState =
  current_snapshot :: nat
  snapshots :: "Snapshot list"
  snapshots_scroll_to :: bool
  disassembly_scroll_to :: bool
  instructions :: "Instruction list"
  trace_file_path :: string

text \<open>
  What the missing headers pcsx2defs.h and pcsx2disassemble.h fix and vutrace.cpp only
  names is a parameter of every function that uses it: the sizes of the two memories, the
  index of the program counter among the integer registers, the layout of the register
  file, the size and the field offsets of the register structures of trace versions 1 and
  2, and the disassembler.
\<close>

record old_VURegs_layout =
  sizeof_regs :: nat
  offset_VF :: nat
  offset_VI :: nat
  offset_ACC :: nat
  offset_q :: nat
  offset_p :: nat

record pcsx2defs =
  VU1_MEMSIZE :: nat
  VU1_PROGSIZE :: nat
  TPC :: nat
  layout :: VURegs_layout
  old_pcsx2_structs_v1 :: old_VURegs_layout
  old_pcsx2_structs_v2 :: old_VURegs_layout
  disassemble :: "u8 list \<Rightarrow> nat \<Rightarrow> string"

definition INSN_PAIR_SIZE :: nat where
  "INSN_PAIR_SIZE = 8"






definition pc_of :: "pcsx2defs \<Rightarrow> Snapshot \<Rightarrow> u32" where
  "pc_of D snap =
     le_word (take 4 (drop (offsetof_VI (layout D) + TPC D * sizeof_VI_reg (layout D))
                          (registers snap)))"

section \<open>Navigation\<close>

text \<open>
  Undefined behaviour of the C++ program is a value of the model: the remainder by an empty
  vector's size, and an index past the end of a vector or array.
\<close>

datatype fault = DivisionByZero | IndexOutOfRange

subsection \<open>walk_until_pc_equal\<close>

text \<open>
  \<^verbatim>\<open>(int) snapshot\<close> keeps the low 32 bits of the 64-bit index, read as two's complement;
  \<^verbatim>\<open>snapshot + step\<close> converts the \<^verbatim>\<open>int\<close> to \<^verbatim>\<open>size_t\<close> and adds modulo \<open>2^64\<close>.
\<close>

definition int_of_size_t :: "nat \<Rightarrow> int" where
  "int_of_size_t n = sint (word_of_nat n :: 32 word)"

definition size_t_plus_int :: "nat \<Rightarrow> int \<Rightarrow> nat" where
  "size_t_plus_int n i = nat ((int n + i) mod 2 ^ 64)"

text \<open>
  The do-while loop; the first argument bounds the number of iterations, and \<open>None\<close> is a
  loop that has not returned within it (with \<^verbatim>\<open>step == 0\<close> it never does). The index
  that is read was checked against the size of the store in the same iteration. The callers
  pass the steps 1 and -1.
\<close>

fun pc_equal_loop ::
  "nat \<Rightarrow> pcsx2defs \<Rightarrow> AppState \<Rightarrow> u32 \<Rightarrow> int \<Rightarrow> nat \<Rightarrow> (AppState \<times> bool) option" where
  "pc_equal_loop 0 D app target_pc step snapshot = None"
| "pc_equal_loop (Suc fuel) D app target_pc step snapshot =
     (if - step > int_of_size_t snapshot
         \<or> size_t_plus_int snapshot step \<ge> length (snapshots app)
      then Some (app, False)
      else let snapshot = size_t_plus_int snapshot step in
        if pc_of D (snapshots app ! snapshot) \<noteq> target_pc
        then pc_equal_loop fuel D app target_pc step snapshot
        else Some (app\<lparr>current_snapshot := snapshot, snapshots_scroll_to := True\<rparr>, True))"

definition walk_until_pc_equal ::
  "nat \<Rightarrow> pcsx2defs \<Rightarrow> AppState \<Rightarrow> u32 \<Rightarrow> int \<Rightarrow> (AppState \<times> bool) option" where
  "walk_until_pc_equal fuel D app target_pc step =
     pc_equal_loop fuel D app target_pc step (current_snapshot app)"

subsection \<open>walk_until_mem_access\<close>

definition accesses :: "Snapshot \<Rightarrow> u32 \<Rightarrow> bool" where
  "accesses snap address \<longleftrightarrow>
     (read_size snap > 0 \<and> read_addr snap div 0x10 = address div 0x10) \<or>
     (write_size snap > 0 \<and> write_addr snap div 0x10 = address div 0x10)"

fun mem_access_loop ::
  "nat \<Rightarrow> AppState \<Rightarrow> u32 \<Rightarrow> nat \<Rightarrow> (fault + AppState) option" where
  "mem_access_loop 0 app address snapshot_index = None"
| "mem_access_loop (Suc fuel) app address snapshot_index =
     (if length (snapshots app) = 0 then Some (Inl DivisionByZero)
      else let snapshot_index = (snapshot_index + 1) mod length (snapshots app) in
        if snapshot_index \<ge> length (snapshots app) then Some (Inl IndexOutOfRange)
        else if accesses (snapshots app ! snapshot_index) address
        then (if snapshot_index \<ge> 1
              then Some (Inr (app\<lparr>current_snapshot := snapshot_index - 1,
                                  snapshots_scroll_to := True,
                                  disassembly_scroll_to := True\<rparr>))
              else Some (Inr app))
        else if snapshot_index \<noteq> current_snapshot app
        then mem_access_loop fuel app address snapshot_index
        else Some (Inr app))"

definition walk_until_mem_access :: "nat \<Rightarrow> AppState \<Rightarrow> u32 \<Rightarrow> (fault + AppState) option" where
  "walk_until_mem_access fuel app address =
     mem_access_loop fuel app address (current_snapshot app)"

text \<open>The indices in the order the loop tests them from cursor \<open>k\<close> in a store of \<open>n\<close>.\<close>

definition cyclic_from :: "nat \<Rightarrow> nat \<Rightarrow> nat list" where
  "cyclic_from k n = map (\<lambda>d. (k + 1 + d) mod n) [0..<n]"


section \<open>Searching the data memory for bytes (memory_window)\<close>

text \<open>
  \<^verbatim>\<open>VU1_MEMSIZE - value_raw.size()\<close> is computed in \<^verbatim>\<open>size_t\<close>, modulo \<open>2^64\<close>.
  \<^verbatim>\<open>memcmp\<close> reads \<^verbatim>\<open>value_raw.size()\<close> bytes from \<^verbatim>\<open>&current.memory[i]\<close>; reading
  past the end of the array is a fault.
\<close>

datatype found_bytes = FoundMatchAt nat | NoMatchFound

definition size_t_minus :: "nat \<Rightarrow> nat \<Rightarrow> nat" where
  "size_t_minus a b = nat ((int a - int b) mod 2 ^ 64)"

function find_bytes_loop :: "pcsx2defs \<Rightarrow> u8 list \<Rightarrow> u8 list \<Rightarrow> nat \<Rightarrow> fault + found_bytes" where
  "find_bytes_loop D mem value_raw i =
     (if i < size_t_minus (VU1_MEMSIZE D) (length value_raw)
      then (if length mem < i + length value_raw then Inl IndexOutOfRange
            else if take (length value_raw) (drop i mem) = value_raw
            then Inr (FoundMatchAt i)
            else find_bytes_loop D mem value_raw (i + 1))
      else Inr NoMatchFound)"
  by pat_completeness auto
termination
  by (relation "measure (\<lambda>(D, mem, value_raw, i).
        size_t_minus (VU1_MEMSIZE D) (length value_raw) - i)") auto

declare find_bytes_loop.simps [simp del]

definition find_bytes :: "pcsx2defs \<Rightarrow> Snapshot \<Rightarrow> u8 list \<Rightarrow> fault + found_bytes" where
  "find_bytes D current value_raw = find_bytes_loop D (memory current) value_raw 0"

section \<open>Reading a trace (parse_trace)\<close>

datatype error =
    FailedToReadTrace
  | UnexpectedEndOfFile
  | FormatVersionTooNew
  | BadProgramCounter
  | BadRegisterIndex
  | AddressTooBig
  | InvalidPacketType u8
  | Crash fault

datatype Packet =
    PushSnapshot
  | SetRegisters "u8 list" "u8 list" "u8 list" "u8 list" "u8 list"
  | SetMemory "u8 list"
  | SetInstructions "u8 list"
  | LoadOp u32 u32
  | StoreOp u32 u32
  | PatchRegister u8 u128
  | PatchMemory u16 u32

definition VUTRACE_PUSHSNAPSHOT :: u8 where "VUTRACE_PUSHSNAPSHOT = 0x50"
definition VUTRACE_SETREGISTERS :: u8 where "VUTRACE_SETREGISTERS = 0x52"
definition VUTRACE_SETMEMORY :: u8 where "VUTRACE_SETMEMORY = 0x4D"
definition VUTRACE_SETINSTRUCTIONS :: u8 where "VUTRACE_SETINSTRUCTIONS = 0x49"
definition VUTRACE_LOADOP :: u8 where "VUTRACE_LOADOP = 0x4C"
definition VUTRACE_STOREOP :: u8 where "VUTRACE_STOREOP = 0x53"
definition VUTRACE_PATCHREGISTER :: u8 where "VUTRACE_PATCHREGISTER = 0x72"
definition VUTRACE_PATCHMEMORY :: u8 where "VUTRACE_PATCHMEMORY = 0x6D"

definition VUTR :: "u8 list" where
  "VUTR = [0x56, 0x55, 0x54, 0x52]"

subsection \<open>Bytes of the file\<close>

text \<open>
  \<^verbatim>\<open>check_eof(fread(buf, n, 1, trace))\<close>: the next \<open>n\<close> bytes and the rest of the file, or
  the exit with "Unexpected end of file" when fewer than \<open>n\<close> bytes are left.
\<close>

definition fread :: "nat \<Rightarrow> u8 list \<Rightarrow> error + (u8 list \<times> u8 list)" where
  "fread n trace =
     (if n \<le> length trace then Inr (take n trace, drop n trace) else Inl UnexpectedEndOfFile)"

text \<open>
  The register packet of versions 1 and 2: the old structure is read whole, and the bytes of
  its members are those that \<^verbatim>\<open>memcpy\<close> and the assignments copy into the current
  members, as many as the current members take.
\<close>

definition read_old_regs ::
  "VURegs_layout \<Rightarrow> old_VURegs_layout \<Rightarrow> u8 list \<Rightarrow> error + (Packet \<times> u8 list)" where
  "read_old_regs L old trace =
     (case fread (sizeof_regs old) trace of
        Inl e \<Rightarrow> Inl e
      | Inr (old_regs, trace) \<Rightarrow>
          Inr (SetRegisters (take (32 * sizeof_VF_reg L) (drop (offset_VF old) old_regs))
                            (take (32 * sizeof_VI_reg L) (drop (offset_VI old) old_regs))
                            (take (sizeof_ACC L) (drop (offset_ACC old) old_regs))
                            (take (sizeof_q L) (drop (offset_q old) old_regs))
                            (take (sizeof_p L) (drop (offset_p old) old_regs)), trace))"

text \<open>The register packet of version 3: one read for each member, of the member's size.\<close>

definition read_regs :: "VURegs_layout \<Rightarrow> u8 list \<Rightarrow> error + (Packet \<times> u8 list)" where
  "read_regs L trace =
     (case fread (32 * sizeof_VF_reg L) trace of Inl e \<Rightarrow> Inl e | Inr (vf, trace) \<Rightarrow>
      case fread (32 * sizeof_VI_reg L) trace of Inl e \<Rightarrow> Inl e | Inr (vi, trace) \<Rightarrow>
      case fread (sizeof_ACC L) trace of Inl e \<Rightarrow> Inl e | Inr (acc, trace) \<Rightarrow>
      case fread (sizeof_q L) trace of Inl e \<Rightarrow> Inl e | Inr (rq, trace) \<Rightarrow>
      case fread (sizeof_p L) trace of Inl e \<Rightarrow> Inl e | Inr (rp, trace) \<Rightarrow>
        Inr (SetRegisters vf vi acc rq rp, trace))"

text \<open>
  The reads of one packet after its type byte, in the order of the switch. Every case reads
  its whole payload before it checks or changes anything. The message for an unknown type
  also prints the offset in the file, which is left out.
\<close>

definition read_packet ::
  "pcsx2defs \<Rightarrow> u32 \<Rightarrow> u8 \<Rightarrow> u8 list \<Rightarrow> error + (Packet \<times> u8 list)" where
  "read_packet D version packet_type trace =
     (if packet_type = VUTRACE_PUSHSNAPSHOT then Inr (PushSnapshot, trace)
      else if packet_type = VUTRACE_SETREGISTERS then
        (if version = 1 then read_old_regs (layout D) (old_pcsx2_structs_v1 D) trace
         else if version = 2 then read_old_regs (layout D) (old_pcsx2_structs_v2 D) trace
         else read_regs (layout D) trace)
      else if packet_type = VUTRACE_SETMEMORY then
        (case fread (VU1_MEMSIZE D) trace of Inl e \<Rightarrow> Inl e
         | Inr (img, trace) \<Rightarrow> Inr (SetMemory img, trace))
      else if packet_type = VUTRACE_SETINSTRUCTIONS then
        (case fread (VU1_PROGSIZE D) trace of Inl e \<Rightarrow> Inl e
         | Inr (img, trace) \<Rightarrow> Inr (SetInstructions img, trace))
      else if packet_type = VUTRACE_LOADOP then
        (case fread 4 trace of Inl e \<Rightarrow> Inl e | Inr (a, trace) \<Rightarrow>
         case fread 4 trace of Inl e \<Rightarrow> Inl e | Inr (s, trace) \<Rightarrow>
           Inr (LoadOp (le_word a) (le_word s), trace))
      else if packet_type = VUTRACE_STOREOP then
        (case fread 4 trace of Inl e \<Rightarrow> Inl e | Inr (a, trace) \<Rightarrow>
         case fread 4 trace of Inl e \<Rightarrow> Inl e | Inr (s, trace) \<Rightarrow>
           Inr (StoreOp (le_word a) (le_word s), trace))
      else if packet_type = VUTRACE_PATCHREGISTER then
        (case fread 1 trace of Inl e \<Rightarrow> Inl e | Inr (index, trace) \<Rightarrow>
         case fread 16 trace of Inl e \<Rightarrow> Inl e | Inr (data, trace) \<Rightarrow>
           Inr (PatchRegister (le_word index) (le_word data), trace))
      else if packet_type = VUTRACE_PATCHMEMORY then
        (case fread 2 trace of Inl e \<Rightarrow> Inl e | Inr (address, trace) \<Rightarrow>
         case fread 4 trace of Inl e \<Rightarrow> Inl e | Inr (data, trace) \<Rightarrow>
           Inr (PatchMemory (le_word address) (le_word data), trace))
      else Inl (InvalidPacketType packet_type))"

subsection \<open>Applying a packet to the current state\<close>

text \<open>\<^verbatim>\<open>memcpy\<close> of bytes into the bytes of an array or a structure.\<close>

fun memcpy :: "u8 list \<Rightarrow> nat \<Rightarrow> u8 list \<Rightarrow> u8 list" where
  "memcpy dst a [] = dst"
| "memcpy dst a (b # bs) = memcpy (dst[a := b]) (Suc a) bs"

text \<open>\<^verbatim>\<open>map[key]++\<close> on a \<^verbatim>\<open>std::map\<close>: a missing key starts at zero.\<close>

definition increment :: "(u32 \<rightharpoonup> nat) \<Rightarrow> u32 \<Rightarrow> (u32 \<rightharpoonup> nat)" where
  "increment m k = m(k \<mapsto> (case m k of None \<Rightarrow> 1 | Some c \<Rightarrow> c + 1))"

text \<open>
  The flow analysis of a push: \<open>snaps\<close> is the store with the new snapshot appended,
  \<open>pc\<close> its program counter, and \<open>instrs\<close> the instruction table.
\<close>

definition record_branch ::
  "pcsx2defs \<Rightarrow> Snapshot list \<Rightarrow> u32 \<Rightarrow> Instruction list \<Rightarrow> error + Instruction list" where
  "record_branch D snaps pc instrs =
     (if length snaps \<ge> 2
      then let last_pc = pc_of D (snaps ! (length snaps - 2)) in
        if last_pc + of_nat INSN_PAIR_SIZE \<noteq> pc
        then let last_slot = unat last_pc div INSN_PAIR_SIZE;
                 slot = unat pc div INSN_PAIR_SIZE
          in if length instrs \<le> last_slot then Inl (Crash IndexOutOfRange)
          else
            let instrs = instrs[last_slot := (instrs ! last_slot)
                  \<lparr>branch_to_times := increment (branch_to_times (instrs ! last_slot)) pc\<rparr>]
            in Inr (instrs[slot := (instrs ! slot)
                  \<lparr>branch_from_times := increment (branch_from_times (instrs ! slot)) last_pc\<rparr>])
        else Inr instrs
      else Inr instrs)"

definition push_snapshot ::
  "pcsx2defs \<Rightarrow> AppState \<Rightarrow> Snapshot \<Rightarrow> error + (AppState \<times> Snapshot)" where
  "push_snapshot D app current =
     (if unat (pc_of D current) \<ge> VU1_PROGSIZE D
         \<or> unat (pc_of D current) mod INSN_PAIR_SIZE \<noteq> 0
      then Inl BadProgramCounter
      else
        let snaps = snapshots app @ [current];
            pc = pc_of D current;
            slot = unat pc div INSN_PAIR_SIZE;
            instrs = instructions app
        in if length instrs \<le> slot then Inl (Crash IndexOutOfRange)
        else
          let instrs = instrs[slot := (instrs ! slot)\<lparr>is_executed := True\<rparr>] in
          case record_branch D snaps pc instrs of
            Inl e \<Rightarrow> Inl e
          | Inr instrs \<Rightarrow>
              Inr (app\<lparr>snapshots := snaps,
                       instructions := instrs[slot := (instrs ! slot)
                         \<lparr>times_executed := times_executed (instrs ! slot) + 1\<rparr>]\<rparr>,
                   current\<lparr>read_addr := 0, read_size := 0,
                           write_addr := 0, write_size := 0\<rparr>))"

text \<open>
  \<^verbatim>\<open>memcpy(&current.registers.X, &data, 16)\<close>: the 16 bytes of the value go to the
  address of the register, whatever the register's own size. A copy that runs past the end
  of the register file is a fault.
\<close>

definition patch_register ::
  "AppState \<Rightarrow> Snapshot \<Rightarrow> nat \<Rightarrow> u128 \<Rightarrow> error + (AppState \<times> Snapshot)" where
  "patch_register app current off data =
     (if length (registers current) < off + 16 then Inl (Crash IndexOutOfRange)
      else Inr (app, current\<lparr>registers := memcpy (registers current) off (le_bytes 16 data)\<rparr>))"

fun apply_packet ::
  "pcsx2defs \<Rightarrow> AppState \<Rightarrow> Snapshot \<Rightarrow> Packet \<Rightarrow> error + (AppState \<times> Snapshot)" where
  "apply_packet D app current PushSnapshot = push_snapshot D app current"
| "apply_packet D app current (SetRegisters vf vi acc rq rp) =
     Inr (app, current\<lparr>registers :=
       memcpy (memcpy (memcpy (memcpy (memcpy (registers current)
         (offsetof_VF (layout D)) vf)
         (offsetof_VI (layout D)) vi)
         (offsetof_ACC (layout D)) acc)
         (offsetof_q (layout D)) rq)
         (offsetof_p (layout D)) rp\<rparr>)"
| "apply_packet D app current (SetMemory img) = Inr (app, current\<lparr>memory := img\<rparr>)"
| "apply_packet D app current (SetInstructions img) = Inr (app, current\<lparr>program := img\<rparr>)"
| "apply_packet D app current (LoadOp a s) =
     Inr (app, current\<lparr>read_addr := a, read_size := s\<rparr>)"
| "apply_packet D app current (StoreOp a s) =
     Inr (app, current\<lparr>write_addr := a, write_size := s\<rparr>)"
| "apply_packet D app current (PatchRegister index data) =
     (if index < 32 then
        patch_register app current
          (offsetof_VF (layout D) + unat index * sizeof_VF_reg (layout D)) data
      else if index < 64 then
        patch_register app current
          (offsetof_VI (layout D) + (unat index - 32) * sizeof_VI_reg (layout D)) data
      else if index = 64 then patch_register app current (offsetof_ACC (layout D)) data
      else if index = 65 then patch_register app current (offsetof_q (layout D)) data
      else if index = 66 then patch_register app current (offsetof_p (layout D)) data
      else Inl BadRegisterIndex)"
| "apply_packet D app current (PatchMemory address data) =
     (if int (unat address) < int (VU1_MEMSIZE D) - 4 then
        Inr (app, current\<lparr>memory := memcpy (memory current) (unat address) (le_bytes 4 data)\<rparr>)
      else Inl AddressTooBig)"

subsection \<open>The packet loop and parse_trace\<close>

text \<open>
  The while loop over the packets. The file is a list of bytes, so the loop ends at the
  end of the file and not at a failed read.
\<close>

function parse_packets ::
  "pcsx2defs \<Rightarrow> u32 \<Rightarrow> AppState \<Rightarrow> Snapshot \<Rightarrow> u8 list \<Rightarrow> error + (AppState \<times> Snapshot)" where
  "parse_packets D version app current [] = Inr (app, current)"
| "parse_packets D version app current (packet_type # trace) =
     (case read_packet D version packet_type trace of
        Inl e \<Rightarrow> Inl e
      | Inr (packet, rest) \<Rightarrow>
          (case apply_packet D app current packet of
             Inl e \<Rightarrow> Inl e
           | Inr (app', current') \<Rightarrow> parse_packets D version app' current' rest))"
  by pat_completeness auto
termination
  by (relation "measure (\<lambda>(D, version, app, current, trace). length trace)")
     (auto simp: read_packet_def read_regs_def read_old_regs_def fread_def
           split: if_splits sum.splits prod.splits)

text \<open>The packets of a stream alone, as the same reads deliver them.\<close>

function read_packets :: "pcsx2defs \<Rightarrow> u32 \<Rightarrow> u8 list \<Rightarrow> error + Packet list" where
  "read_packets D version [] = Inr []"
| "read_packets D version (packet_type # trace) =
     (case read_packet D version packet_type trace of
        Inl e \<Rightarrow> Inl e
      | Inr (packet, rest) \<Rightarrow>
          (case read_packets D version rest of
             Inl e \<Rightarrow> Inl e
           | Inr packets \<Rightarrow> Inr (packet # packets)))"
  by pat_completeness auto
termination
  by (relation "measure (\<lambda>(D, version, trace). length trace)")
     (auto simp: read_packet_def read_regs_def read_old_regs_def fread_def
           split: if_splits sum.splits prod.splits)

text \<open>
  \<^verbatim>\<open>Snapshot current;\<close> has zeroed registers and access records; its two images are not
  initialised, and \<open>mem0\<close> and \<open>prog0\<close> stand for whatever bytes they hold.
\<close>

definition new_Snapshot :: "pcsx2defs \<Rightarrow> (nat \<Rightarrow> u8) \<Rightarrow> (nat \<Rightarrow> u8) \<Rightarrow> Snapshot" where
  "new_Snapshot D mem0 prog0 =
     \<lparr>registers = replicate (sizeof_VURegs (layout D)) 0,
      memory = map mem0 [0..<VU1_MEMSIZE D],
      program = map prog0 [0..<VU1_PROGSIZE D],
      read_addr = 0, read_size = 0, write_addr = 0, write_size = 0\<rparr>"

definition new_Instruction :: Instruction where
  "new_Instruction =
     \<lparr>is_executed = False, branch_to_times = Map.empty, branch_from_times = Map.empty,
      times_executed = 0, disassembly = []\<rparr>"

definition resize :: "Instruction list \<Rightarrow> nat \<Rightarrow> Instruction list" where
  "resize v n = take n v @ replicate (n - length v) new_Instruction"

text \<open>
  The magic and the version: a file that does not start with "VUTR" is of version 1 and is
  read again from its first byte.
\<close>

definition read_header :: "u8 list \<Rightarrow> error + (u32 \<times> u8 list)" where
  "read_header trace =
     (case fread 4 trace of
        Inl e \<Rightarrow> Inl e
      | Inr (magic, rest) \<Rightarrow>
          if magic = VUTR
          then (case fread 4 rest of
                  Inl e \<Rightarrow> Inl e
                | Inr (v, rest) \<Rightarrow> Inr (le_word v, rest))
          else Inr (1, trace))"

text \<open>The last loop of parse_trace, over the addresses 0, 8, ... below \<^verbatim>\<open>VU1_PROGSIZE\<close>.\<close>

definition disassemble_all :: "pcsx2defs \<Rightarrow> AppState \<Rightarrow> Snapshot \<Rightarrow> error + AppState" where
  "disassemble_all D app current =
     (if length (instructions app) < (VU1_PROGSIZE D + 7) div 8 then Inl (Crash IndexOutOfRange)
      else Inr (app\<lparr>instructions :=
        fold (\<lambda>k instrs. instrs[k := (instrs ! k)
                \<lparr>disassembly := disassemble D (take 8 (drop (8 * k) (program current))) (8 * k)\<rparr>])
             [0..<(VU1_PROGSIZE D + 7) div 8] (instructions app)\<rparr>))"

text \<open>
  The session as the packet loop finds it: the path is stored, the instruction table has
  one slot for each instruction pair, and the store is empty.
\<close>

definition begin_trace :: "pcsx2defs \<Rightarrow> AppState \<Rightarrow> string \<Rightarrow> AppState" where
  "begin_trace D app path =
     app\<lparr>trace_file_path := path,
         instructions := resize (instructions app) (VU1_PROGSIZE D div INSN_PAIR_SIZE),
         snapshots := []\<rparr>"

text \<open>The file is \<open>None\<close> when it cannot be opened.\<close>

definition parse_trace ::
  "pcsx2defs \<Rightarrow> (nat \<Rightarrow> u8) \<Rightarrow> (nat \<Rightarrow> u8) \<Rightarrow> AppState \<Rightarrow> string \<Rightarrow> u8 list option
     \<Rightarrow> error + AppState" where
  "parse_trace D mem0 prog0 app path file =
     (case file of
        None \<Rightarrow> Inl FailedToReadTrace
      | Some trace \<Rightarrow>
          let app = begin_trace D app path
          in case read_header trace of
               Inl e \<Rightarrow> Inl e
             | Inr (version, packets) \<Rightarrow>
                 if version > 3 then Inl FormatVersionTooNew
                 else (case parse_packets D version app (new_Snapshot D mem0 prog0) packets of
                         Inl e \<Rightarrow> Inl e
                       | Inr (app', current) \<Rightarrow> disassemble_all D app' current))"

text \<open>The packets of a whole file: the header, then the packets of the version it fixes.\<close>

definition trace_packets :: "pcsx2defs \<Rightarrow> u8 list \<Rightarrow> error + Packet list" where
  "trace_packets D trace =
     (case read_header trace of
        Inl e \<Rightarrow> Inl e
      | Inr (version, packets) \<Rightarrow>
          if version > 3 then Inl FormatVersionTooNew else read_packets D version packets)"

section \<open>Invariants and readings used in the statements\<close>

text \<open>
  What parse_trace establishes before its loop and every packet keeps: one instruction slot
  for each instruction pair of the program memory, and a checked program counter in every
  snapshot of the store.
\<close>

definition slots_ok :: "pcsx2defs \<Rightarrow> AppState \<Rightarrow> bool" where
  "slots_ok D app \<longleftrightarrow>
     8 dvd VU1_PROGSIZE D \<and>
     length (instructions app) = VU1_PROGSIZE D div INSN_PAIR_SIZE \<and>
     list_all (\<lambda>s. unat (pc_of D s) < VU1_PROGSIZE D) (snapshots app)"

text \<open>The count a \<^verbatim>\<open>std::map\<close> of counters holds for a key; a missing key counts zero.\<close>

definition count_at :: "(u32 \<rightharpoonup> nat) \<Rightarrow> u32 \<Rightarrow> nat" where
  "count_at m k = (case m k of None \<Rightarrow> 0 | Some c \<Rightarrow> c)"




section \<open>A concrete machine and concrete states\<close>

text \<open>
  The VU1 of PCSX2: 16 KiB of data memory, 16 KiB of program memory, the program counter
  in integer register 26, and a register file in which every register, the integer
  registers and \<^verbatim>\<open>q\<close> and \<^verbatim>\<open>p\<close> included, is padded to 16 bytes. The two legacy
  layouts are placeholders of the size of the current register block; no statement below
  depends on them.
\<close>

definition padded_layout :: VURegs_layout where
  "padded_layout =
     \<lparr>sizeof_VURegs = 1072,
      offsetof_VF = 0, sizeof_VF_reg = 16,
      offsetof_VI = 512, sizeof_VI_reg = 16,
      offsetof_ACC = 1024, sizeof_ACC = 16,
      offsetof_q = 1040, sizeof_q = 16,
      offsetof_p = 1056, sizeof_p = 16\<rparr>"

definition vu1_defs :: pcsx2defs where
  "vu1_defs =
     \<lparr>VU1_MEMSIZE = 0x4000, VU1_PROGSIZE = 0x4000, TPC = 26,
      layout = padded_layout,
      old_pcsx2_structs_v1 = \<lparr>sizeof_regs = 1072, offset_VF = 0, offset_VI = 512,
                               offset_ACC = 1024, offset_q = 1040, offset_p = 1056\<rparr>,
      old_pcsx2_structs_v2 = \<lparr>sizeof_regs = 1072, offset_VF = 0, offset_VI = 512,
                               offset_ACC = 1024, offset_q = 1040, offset_p = 1056\<rparr>,
      disassemble = (\<lambda>bytes address. [])\<rparr>"



text \<open>
  A snapshot of the padded register file with zeroed images, the given program counter in
  integer register 26 (at byte 512 + 26 * 16) and the given accesses.
\<close>

definition snapshot_with :: "u32 \<Rightarrow> u32 \<Rightarrow> u32 \<Rightarrow> u32 \<Rightarrow> u32 \<Rightarrow> Snapshot" where
  "snapshot_with pc ra rs wa ws =
     \<lparr>registers = replicate 928 0 @ le_bytes 4 pc @ replicate 140 0,
      memory = replicate 0x4000 0,
      program = replicate 0x4000 0,
      read_addr = ra, read_size = rs, write_addr = wa, write_size = ws\<rparr>"

text \<open>
  A session of three snapshots at the program counters 0, 8, 0: the first read 16 bytes at
  0x20, the last wrote 16 bytes at 0x30.
\<close>

definition three_snapshots :: "nat \<Rightarrow> AppState" where
  "three_snapshots cursor =
     \<lparr>current_snapshot = cursor,
      snapshots = [snapshot_with 0 0x20 16 0 0, snapshot_with 8 0 0 0 0,
                   snapshot_with 0 0 0 0x30 16],
      snapshots_scroll_to = False,
      disassembly_scroll_to = False,
      instructions = replicate 2048 new_Instruction,
      trace_file_path = []\<rparr>"

text \<open>A session before any trace was read.\<close>

definition new_AppState :: AppState where
  "new_AppState =
     \<lparr>current_snapshot = 0, snapshots = [], snapshots_scroll_to = False,
      disassembly_scroll_to = False, instructions = [], trace_file_path = []\<rparr>"

text \<open>Images that happen to hold zeros before the first packet.\<close>

definition zero_bytes :: "nat \<Rightarrow> u8" where
  "zero_bytes i = 0"


text \<open>
  Two small traces. The first has no header: a load of 16 bytes at 0x20, then a push. The
  second has the header of version 3: a push, the same load, a push.
\<close>

definition headerless_trace :: "u8 list" where
  "headerless_trace = [0x4C, 0x20, 0, 0, 0, 0x10, 0, 0, 0, 0x50]"

definition version_3_trace :: "u8 list" where
  "version_3_trace =
     [0x56, 0x55, 0x54, 0x52, 3, 0, 0, 0, 0x50, 0x4C, 0x20, 0, 0, 0, 0x10, 0, 0, 0, 0x50]"

text \<open>A trace of version 3 with one memory patch, of the last four bytes of the memory.\<close>

definition patch_last_word_trace :: "u8 list" where
  "patch_last_word_trace =
     [0x56, 0x55, 0x54, 0x52, 3, 0, 0, 0, 0x6D, 0xFC, 0x3F, 0xEF, 0xBE, 0xAD, 0xDE]"

text \<open>A data memory of zeros whose last byte is 1.\<close>

definition memory_ending_in_1 :: Snapshot where
  "memory_ending_in_1 = (snapshot_with 0 0 0 0 0)\<lparr>memory := replicate 0x3FFF 0 @ [1]\<rparr>"

section \<open>Facts about the concrete states\<close>

lemma le_bytes_4:
  "le_bytes 4 w = [ucast w, ucast (drop_bit 8 w), ucast (drop_bit 16 w), ucast (drop_bit 24 w)]"
  by (simp add: le_bytes_def upt_conv_Cons)

lemma le_word_le_bytes_4: "le_word (le_bytes 4 w) = (w :: u32)"
  unfolding le_bytes_4 le_word_def
  apply (rule bit_word_eqI)
  apply (auto simp: bit_simps)
  subgoal for n by (cases "n < 24") simp_all
  done

lemma le_word_zeros: "le_word (replicate k 0) = 0"
  by (induction k) (simp_all add: le_word_def)

lemma le_bytes_length: "length (le_bytes n w) = n"
  by (simp add: le_bytes_def)

lemma pc_of_snapshot_with: "pc_of vu1_defs (snapshot_with pc ra rs wa ws) = pc"
proof -
  have "take 4 (drop 928 (replicate 928 0 @ le_bytes 4 pc @ replicate 140 0)) = le_bytes 4 pc"
    by (simp add: le_bytes_length)
  then show ?thesis
    by (simp add: pc_of_def snapshot_with_def vu1_defs_def padded_layout_def le_word_le_bytes_4)
qed

lemma three_snapshots_length: "length (snapshots (three_snapshots c)) = 3"
  by (simp add: three_snapshots_def)

lemma three_snapshots_cursor: "current_snapshot (three_snapshots c) = c"
  by (simp add: three_snapshots_def)

lemma three_snapshots_store:
  "snapshots (three_snapshots c) =
     [snapshot_with 0 0x20 16 0 0, snapshot_with 8 0 0 0 0, snapshot_with 0 0 0 0x30 16]"
  by (simp add: three_snapshots_def)

lemmas three_snapshots_simps =
  three_snapshots_length three_snapshots_cursor three_snapshots_store

lemma accesses_snapshot_with:
  "accesses (snapshot_with pc ra rs wa ws) address \<longleftrightarrow>
     (rs > 0 \<and> ra div 0x10 = address div 0x10) \<or> (ws > 0 \<and> wa div 0x10 = address div 0x10)"
  by (simp add: accesses_def snapshot_with_def)

section \<open>Seeking by program counter\<close>

lemma int_of_size_t_small: "n < 2 ^ 31 \<Longrightarrow> int_of_size_t n = int n"
proof -
  assume a: "n < 2 ^ 31"
  have "sint (word_of_int (int n) :: 32 word) = signed_take_bit 31 (int n)"
    by (simp only: sint_sbintrunc') simp
  moreover have "signed_take_bit 31 (int n) = int n"
    using a by (simp add: signed_take_bit_int_eq_self_iff)
  ultimately show ?thesis by (simp add: int_of_size_t_def)
qed

lemma size_t_plus_one: "n < 2 ^ 31 \<Longrightarrow> size_t_plus_int n 1 = Suc n"
  unfolding size_t_plus_int_def
  by (simp add: nat_add_distrib)

lemma size_t_minus_one: "n < 2 ^ 31 \<Longrightarrow> size_t_plus_int (Suc n) (- 1) = n"
  unfolding size_t_plus_int_def
  by simp

lemma pc_equal_loop_forward:
  assumes "length (snapshots app) < 2 ^ 31" "s \<le> length (snapshots app)"
    "length (snapshots app) - s < fuel"
  shows "pc_equal_loop fuel D app t 1 s =
    Some (case List.find (\<lambda>j. pc_of D (snapshots app ! j) = t) [Suc s..<length (snapshots app)] of
       None \<Rightarrow> (app, False)
     | Some j \<Rightarrow> (app\<lparr>current_snapshot := j, snapshots_scroll_to := True\<rparr>, True))"
  using assms
proof (induction fuel arbitrary: s)
  case 0
  then show ?case by simp
next
  case (Suc fuel)
  have s31: "s < 2 ^ 31" using Suc.prems by simp
  show ?case
  proof (cases "Suc s < length (snapshots app)")
    case False
    then show ?thesis using s31
      by (simp add: int_of_size_t_small size_t_plus_one)
  next
    case True
    then have u: "[Suc s..<length (snapshots app)] = Suc s # [Suc (Suc s)..<length (snapshots app)]"
      by (simp add: upt_conv_Cons)
    have ih: "pc_equal_loop fuel D app t 1 (Suc s) =
    Some (case List.find (\<lambda>j. pc_of D (snapshots app ! j) = t) [Suc (Suc s)..<length (snapshots app)] of
       None \<Rightarrow> (app, False)
     | Some j \<Rightarrow> (app\<lparr>current_snapshot := j, snapshots_scroll_to := True\<rparr>, True))"
      using Suc.prems True by (intro Suc.IH) auto
    show ?thesis using s31 True ih
      by (simp add: int_of_size_t_small size_t_plus_one u)
  qed
qed

lemma pc_equal_loop_backward:
  assumes "length (snapshots app) < 2 ^ 31" "s \<le> length (snapshots app)" "s < fuel"
  shows "pc_equal_loop fuel D app t (- 1) s =
    Some (case List.find (\<lambda>j. pc_of D (snapshots app ! j) = t) (rev [0..<s]) of
       None \<Rightarrow> (app, False)
     | Some j \<Rightarrow> (app\<lparr>current_snapshot := j, snapshots_scroll_to := True\<rparr>, True))"
  using assms
proof (induction fuel arbitrary: s)
  case 0
  then show ?case by simp
next
  case (Suc fuel)
  have s31: "s < 2 ^ 31" using Suc.prems by simp
  show ?case
  proof (cases s)
    case 0
    then show ?thesis by (simp add: int_of_size_t_small)
  next
    case (Suc m)
    have m31: "m < 2 ^ 31" using s31 Suc by simp
    have ih: "pc_equal_loop fuel D app t (- 1) m =
    Some (case List.find (\<lambda>j. pc_of D (snapshots app ! j) = t) (rev [0..<m]) of
       None \<Rightarrow> (app, False)
     | Some j \<Rightarrow> (app\<lparr>current_snapshot := j, snapshots_scroll_to := True\<rparr>, True))"
      using Suc.prems Suc by (intro Suc.IH) auto
    show ?thesis using s31 m31 Suc Suc.prems ih
      by (simp add: int_of_size_t_small size_t_minus_one)
  qed
qed

lemma find_upt_least:
  "a \<le> j \<Longrightarrow> j < b \<Longrightarrow> P j \<Longrightarrow> (\<forall>i. a \<le> i \<and> i < j \<longrightarrow> \<not> P i) \<Longrightarrow> List.find P [a..<b] = Some j"
proof (induction "j - a" arbitrary: a)
  case 0
  then show ?case by (simp add: upt_conv_Cons)
next
  case (Suc d)
  then have "a < j" "a < b" "\<not> P a" by auto
  moreover have "List.find P [Suc a..<b] = Some j"
    using Suc by (intro Suc.hyps) auto
  ultimately show ?case by (simp add: upt_conv_Cons)
qed

lemma find_rev_upt_greatest:
  "j < b \<Longrightarrow> P j \<Longrightarrow> (\<forall>i. j < i \<and> i < b \<longrightarrow> \<not> P i) \<Longrightarrow> List.find P (rev [0..<b]) = Some j"
proof (induction b)
  case 0
  then show ?case by simp
next
  case (Suc b)
  show ?case
  proof (cases "j = b")
    case True
    then show ?thesis using Suc.prems by simp
  next
    case False
    then have "j < b" "\<not> P b" using Suc.prems by auto
    moreover have "List.find P (rev [0..<b]) = Some j"
      using Suc.prems \<open>j < b\<close> by (intro Suc.IH) auto
    ultimately show ?thesis by simp
  qed
qed

text \<open>
  C8. From a cursor \<open>k\<close> inside the store (or at 0 in an empty one), with \<^verbatim>\<open>step = +1\<close> the
  cursor moves to the smallest index \<open>j > k\<close> whose program counter is \<open>target_pc\<close> and the
  function returns true; when no index from \<open>k + 1\<close> to the last one has that program
  counter the state is unchanged and it returns false. With \<^verbatim>\<open>step = -1\<close> it moves to the
  largest such \<open>j < k\<close>, all of \<open>k - 1\<close> down to \<open>0\<close> being examined, or leaves the state
  unchanged and returns false. The loop returns within one iteration more than the store has
  snapshots. The store holds fewer than \<open>2^31\<close> snapshots, so that \<^verbatim>\<open>(int) snapshot\<close> is
  the index itself.
\<close>

theorem walk_until_pc_equal_seek:
  assumes "length (snapshots app) < 2 ^ 31"
    and "current_snapshot app \<le> length (snapshots app)"
    and "length (snapshots app) < fuel"
  shows "(\<forall>j. current_snapshot app < j \<and> j < length (snapshots app)
            \<and> pc_of D (snapshots app ! j) = target_pc
            \<and> (\<forall>i. current_snapshot app < i \<and> i < j \<longrightarrow> pc_of D (snapshots app ! i) \<noteq> target_pc)
          \<longrightarrow> walk_until_pc_equal fuel D app target_pc 1 =
                Some (app\<lparr>current_snapshot := j, snapshots_scroll_to := True\<rparr>, True))
       \<and> ((\<forall>i. current_snapshot app < i \<and> i < length (snapshots app)
                \<longrightarrow> pc_of D (snapshots app ! i) \<noteq> target_pc)
          \<longrightarrow> walk_until_pc_equal fuel D app target_pc 1 = Some (app, False))
       \<and> (\<forall>j. j < current_snapshot app
            \<and> pc_of D (snapshots app ! j) = target_pc
            \<and> (\<forall>i. j < i \<and> i < current_snapshot app \<longrightarrow> pc_of D (snapshots app ! i) \<noteq> target_pc)
          \<longrightarrow> walk_until_pc_equal fuel D app target_pc (- 1) =
                Some (app\<lparr>current_snapshot := j, snapshots_scroll_to := True\<rparr>, True))
       \<and> ((\<forall>i. i < current_snapshot app \<longrightarrow> pc_of D (snapshots app ! i) \<noteq> target_pc)
          \<longrightarrow> walk_until_pc_equal fuel D app target_pc (- 1) = Some (app, False))"
proof -
  let ?k = "current_snapshot app"
  let ?n = "length (snapshots app)"
  let ?P = "\<lambda>j. pc_of D (snapshots app ! j) = target_pc"
  have fwd: "walk_until_pc_equal fuel D app target_pc 1 =
    Some (case List.find ?P [Suc ?k..<?n] of
       None \<Rightarrow> (app, False)
     | Some j \<Rightarrow> (app\<lparr>current_snapshot := j, snapshots_scroll_to := True\<rparr>, True))"
    unfolding walk_until_pc_equal_def using assms by (intro pc_equal_loop_forward) auto
  have bwd: "walk_until_pc_equal fuel D app target_pc (- 1) =
    Some (case List.find ?P (rev [0..<?k]) of
       None \<Rightarrow> (app, False)
     | Some j \<Rightarrow> (app\<lparr>current_snapshot := j, snapshots_scroll_to := True\<rparr>, True))"
    unfolding walk_until_pc_equal_def using assms by (intro pc_equal_loop_backward) auto
  have 1: "walk_until_pc_equal fuel D app target_pc 1 =
                Some (app\<lparr>current_snapshot := j, snapshots_scroll_to := True\<rparr>, True)"
    if "?k < j" "j < ?n" "?P j" "\<forall>i. ?k < i \<and> i < j \<longrightarrow> \<not> ?P i" for j
  proof -
    have "List.find ?P [Suc ?k..<?n] = Some j"
      using that by (intro find_upt_least) auto
    then show ?thesis by (simp add: fwd)
  qed
  have 2: "walk_until_pc_equal fuel D app target_pc 1 = Some (app, False)"
    if "\<forall>i. ?k < i \<and> i < ?n \<longrightarrow> \<not> ?P i"
  proof -
    have "List.find ?P [Suc ?k..<?n] = None"
      using that by (simp add: find_None_iff)
    then show ?thesis by (simp add: fwd)
  qed
  have 3: "walk_until_pc_equal fuel D app target_pc (- 1) =
                Some (app\<lparr>current_snapshot := j, snapshots_scroll_to := True\<rparr>, True)"
    if "j < ?k" "?P j" "\<forall>i. j < i \<and> i < ?k \<longrightarrow> \<not> ?P i" for j
  proof -
    have "List.find ?P (rev [0..<?k]) = Some j"
      using that by (intro find_rev_upt_greatest) auto
    then show ?thesis by (simp add: bwd)
  qed
  have 4: "walk_until_pc_equal fuel D app target_pc (- 1) = Some (app, False)"
    if "\<forall>i. i < ?k \<longrightarrow> \<not> ?P i"
  proof -
    have "List.find ?P (rev [0..<?k]) = None"
      using that by (simp add: find_None_iff)
    then show ?thesis by (simp add: bwd)
  qed
  show ?thesis using 1 2 3 4 by blast
qed

text \<open>
  In the session of three snapshots at 0, 8, 0: from the first snapshot the next occurrence
  of program counter 0 is the third, and from the third the previous one is the first.
\<close>

theorem walk_until_pc_equal_seek_witness:
  "length (snapshots (three_snapshots 0)) < 2 ^ 31
   \<and> current_snapshot (three_snapshots 0) \<le> length (snapshots (three_snapshots 0))
   \<and> length (snapshots (three_snapshots 0)) < 4
   \<and> walk_until_pc_equal 4 vu1_defs (three_snapshots 0) 0 1 =
       Some ((three_snapshots 0)\<lparr>current_snapshot := 2, snapshots_scroll_to := True\<rparr>, True)
   \<and> walk_until_pc_equal 4 vu1_defs (three_snapshots 0) 0 (- 1) =
       Some (three_snapshots 0, False)"
proof -
  have h1: "length (snapshots (three_snapshots 0)) < 2 ^ 31"
    by (simp add: three_snapshots_simps)
  have h2: "current_snapshot (three_snapshots 0) \<le> length (snapshots (three_snapshots 0))"
    by (simp add: three_snapshots_simps)
  have h3: "length (snapshots (three_snapshots 0)) < 4"
    by (simp add: three_snapshots_simps)
  note seek = walk_until_pc_equal_seek [OF h1 h2 h3, of vu1_defs 0]
  have between: "pc_of vu1_defs (snapshots (three_snapshots 0) ! i) \<noteq> 0"
    if "current_snapshot (three_snapshots 0) < i \<and> i < 2" for i
  proof -
    from that have "i = Suc 0" by (simp add: three_snapshots_simps)
    then show ?thesis by (simp add: three_snapshots_simps pc_of_snapshot_with)
  qed
  have there: "pc_of vu1_defs (snapshots (three_snapshots 0) ! 2) = 0"
    by (simp add: three_snapshots_simps pc_of_snapshot_with)
  have forward: "walk_until_pc_equal 4 vu1_defs (three_snapshots 0) 0 1 =
       Some ((three_snapshots 0)\<lparr>current_snapshot := 2, snapshots_scroll_to := True\<rparr>, True)"
    using seek between there by (simp add: three_snapshots_simps)
  have backward: "walk_until_pc_equal 4 vu1_defs (three_snapshots 0) 0 (- 1) =
       Some (three_snapshots 0, False)"
    using seek by (simp add: three_snapshots_simps)
  show ?thesis using h1 h2 h3 forward backward by blast
qed

section \<open>Seeking by memory access\<close>

lemma cyclic_step: "((k + d) mod n + 1) mod n = (k + 1 + d) mod (n::nat)"
  using mod_Suc_eq [of "k + d" n] by simp

lemma cyclic_back: "k < n \<Longrightarrow> d < n \<Longrightarrow> (k + 1 + d) mod n = k \<longleftrightarrow> Suc d = n"
proof
  assume a: "k < n" "d < n" "(k + 1 + d) mod n = k"
  show "Suc d = n"
  proof (rule ccontr)
    assume "Suc d \<noteq> n"
    then have lt: "Suc d < n" using a by simp
    show False
    proof (cases "k + 1 + d < n")
      case True
      then show ?thesis using a by simp
    next
      case False
      then have "(k + 1 + d) mod n = (k + 1 + d - n) mod n"
        by (simp add: le_mod_geq)
      also have "\<dots> = k + 1 + d - n"
        using a lt by simp
      finally show ?thesis using a lt False by simp
    qed
  qed
next
  assume "k < n" "d < n" "Suc d = n"
  then have e: "k + 1 + d = k + n" by simp
  show "(k + 1 + d) mod n = k" unfolding e using \<open>k < n\<close> by simp
qed

lemma cyclic_from_below: "j \<in> set (cyclic_from k n) \<Longrightarrow> j < n"
  by (cases "n = 0") (auto simp: cyclic_from_def)

lemma cyclic_from_eq:
  assumes "k < n"
  shows "cyclic_from k n = [Suc k..<n] @ [0..<Suc k]"
proof (rule nth_equalityI)
  show "length (cyclic_from k n) = length ([Suc k..<n] @ [0..<Suc k])"
    using assms by (simp add: cyclic_from_def)
next
  fix d
  assume "d < length (cyclic_from k n)"
  then have d: "d < n" by (simp add: cyclic_from_def)
  show "cyclic_from k n ! d = ([Suc k..<n] @ [0..<Suc k]) ! d"
  proof (cases "k + 1 + d < n")
    case True
    then have "d < n - Suc k" by simp
    then show ?thesis using True d by (simp add: cyclic_from_def nth_append)
  next
    case False
    then have "(k + 1 + d) mod n = (k + 1 + d - n) mod n"
      by (simp add: le_mod_geq)
    also have "\<dots> = k + 1 + d - n" using assms d by simp
    finally have "(k + 1 + d) mod n = k + 1 + d - n" .
    moreover have "\<not> d < n - Suc k" using False by simp
    then have "([Suc k..<n] @ [0..<Suc k]) ! d = [0..<Suc k] ! (d - (n - Suc k))"
      by (simp add: nth_append)
    moreover have "d - (n - Suc k) < Suc k" using assms d by simp
    then have "[0..<Suc k] ! (d - (n - Suc k)) = d - (n - Suc k)"
      by (simp del: upt_Suc)
    moreover have "d - (n - Suc k) = k + 1 + d - n" using False assms by simp
    ultimately show ?thesis using d by (simp add: cyclic_from_def)
  qed
qed

lemma mem_access_loop_scan:
  assumes "current_snapshot app < length (snapshots app)" "d < length (snapshots app)"
    "length (snapshots app) - d \<le> fuel"
  shows "mem_access_loop fuel app address ((current_snapshot app + d) mod length (snapshots app)) =
    Some (Inr (case List.find (\<lambda>j. accesses (snapshots app ! j) address)
                     (drop d (cyclic_from (current_snapshot app) (length (snapshots app)))) of
        None \<Rightarrow> app
      | Some j \<Rightarrow> if 1 \<le> j
          then app\<lparr>current_snapshot := j - 1, snapshots_scroll_to := True, disassembly_scroll_to := True\<rparr>
          else app))"
  using assms
proof (induction fuel arbitrary: d)
  case 0
  then show ?case by simp
next
  case (Suc fuel)
  let ?n = "length (snapshots app)"
  let ?k = "current_snapshot app"
  define j where "j = (?k + 1 + d) mod ?n"
  have n0: "?n \<noteq> 0" using Suc.prems by auto
  have jn: "\<not> ?n \<le> j" using n0 by (simp add: j_def not_le)
  have dr: "drop d (cyclic_from ?k ?n) = j # drop (Suc d) (cyclic_from ?k ?n)"
    using Suc.prems by (simp add: j_def cyclic_from_def Cons_nth_drop_Suc [symmetric])
  have st: "((?k + d) mod ?n + 1) mod ?n = j"
    unfolding j_def by (rule cyclic_step)
  have wrapped: "j = ?k \<longleftrightarrow> Suc d = ?n"
    unfolding j_def using Suc.prems cyclic_back by blast
  have unf: "mem_access_loop (Suc fuel) app address ((?k + d) mod ?n) =
     (if accesses (snapshots app ! j) address
        then (if j \<ge> 1
              then Some (Inr (app\<lparr>current_snapshot := j - 1,
                                  snapshots_scroll_to := True,
                                  disassembly_scroll_to := True\<rparr>))
              else Some (Inr app))
        else if j \<noteq> ?k
        then mem_access_loop fuel app address j
        else Some (Inr app))"
    using n0 jn by (simp add: Let_def st del: One_nat_def)
  show ?case
  proof (cases "accesses (snapshots app ! j) address")
    case True
    then show ?thesis unfolding unf dr by simp
  next
    case False
    show ?thesis
    proof (cases "Suc d = ?n")
      case True
      then have "j = ?k" using wrapped by simp
      moreover have "drop (Suc d) (cyclic_from ?k ?n) = []"
        using True by (simp add: cyclic_from_def)
      ultimately show ?thesis unfolding unf dr using False by simp
    next
      case ne: False
      then have "j \<noteq> ?k" using wrapped by simp
      moreover have "mem_access_loop fuel app address ((?k + Suc d) mod ?n) =
        Some (Inr (case List.find (\<lambda>j. accesses (snapshots app ! j) address)
                     (drop (Suc d) (cyclic_from ?k ?n)) of
        None \<Rightarrow> app
      | Some j \<Rightarrow> if 1 \<le> j
          then app\<lparr>current_snapshot := j - 1, snapshots_scroll_to := True, disassembly_scroll_to := True\<rparr>
          else app))"
        using Suc.prems ne by (intro Suc.IH) auto
      moreover have "(?k + Suc d) mod ?n = j" by (simp add: j_def)
      ultimately show ?thesis unfolding unf dr using False by simp
    qed
  qed
qed

text \<open>
  C1, as the code has it. In a store of \<open>n > 0\<close> snapshots with the cursor at an index \<open>k\<close>
  of the store, the loop tests the indices \<open>k + 1, ..., n - 1, 0, ..., k\<close> in this order and
  stops at the first index \<open>j\<close> whose snapshot has a read or a write record of size \<open>> 0\<close>
  in the 16-byte block of the address. For \<open>j \<ge> 1\<close> the cursor becomes \<open>j - 1\<close> and both
  scroll requests are set; for \<open>j = 0\<close> the state is left as it was, the cursor included.
  Without a match the state is unchanged. The function returns no value, and it returns
  within \<open>n\<close> iterations.
\<close>

theorem walk_until_mem_access_scan:
  assumes "snapshots app \<noteq> []"
    and "current_snapshot app < length (snapshots app)"
    and "length (snapshots app) \<le> fuel"
  shows "walk_until_mem_access fuel app address =
    Some (Inr (case List.find (\<lambda>j. accesses (snapshots app ! j) address)
                     ([Suc (current_snapshot app)..<length (snapshots app)]
                        @ [0..<Suc (current_snapshot app)]) of
        None \<Rightarrow> app
      | Some j \<Rightarrow> if 1 \<le> j
          then app\<lparr>current_snapshot := j - 1, snapshots_scroll_to := True, disassembly_scroll_to := True\<rparr>
          else app))"
proof -
  have "cyclic_from (current_snapshot app) (length (snapshots app)) =
      [Suc (current_snapshot app)..<length (snapshots app)] @ [0..<Suc (current_snapshot app)]"
    using assms(2) by (rule cyclic_from_eq)
  then show ?thesis
    using mem_access_loop_scan [of app 0 fuel address] assms
    by (simp add: walk_until_mem_access_def del: upt_Suc)
qed

text \<open>
  From the first of the three snapshots, the write at 0x30 is found in the third one and the
  cursor lands on the second.
\<close>

theorem walk_until_mem_access_scan_witness:
  "snapshots (three_snapshots 0) \<noteq> []
   \<and> current_snapshot (three_snapshots 0) < length (snapshots (three_snapshots 0))
   \<and> length (snapshots (three_snapshots 0)) \<le> 3
   \<and> walk_until_mem_access 3 (three_snapshots 0) 0x38 =
       Some (Inr ((three_snapshots 0)\<lparr>current_snapshot := 1, snapshots_scroll_to := True,
                                      disassembly_scroll_to := True\<rparr>))"
proof -
  have h1: "snapshots (three_snapshots 0) \<noteq> []"
    by (simp add: three_snapshots_def)
  have h2: "current_snapshot (three_snapshots 0) < length (snapshots (three_snapshots 0))"
    by (simp add: three_snapshots_simps)
  have h3: "length (snapshots (three_snapshots 0)) \<le> 3"
    by (simp add: three_snapshots_simps)
  have order: "[Suc 0..<3] @ [0..<Suc 0] = [1, 2, 0]"
    by (simp add: upt_conv_Cons)
  note scan = walk_until_mem_access_scan [OF h1 h2 h3, of "0x38"]
  note scan = scan [unfolded three_snapshots_length three_snapshots_cursor order]
  have "walk_until_mem_access 3 (three_snapshots 0) 0x38 =
       Some (Inr ((three_snapshots 0)\<lparr>current_snapshot := 1, snapshots_scroll_to := True,
                                      disassembly_scroll_to := True\<rparr>))"
    using scan by (simp add: three_snapshots_store accesses_snapshot_with)
  then show ?thesis using h1 h2 h3 by blast
qed

text \<open>
  Against C1 as it was stated: with the cursor on the second of the three snapshots and the
  address 0x24, the scan passes the third snapshot and finds the read of the first one, at
  index 0; the cursor stays at 1 and is not moved to 0.
\<close>

theorem walk_until_mem_access_match_at_0_counterexample:
  "cyclic_from 1 3 = [2, 0, 1]
   \<and> \<not> accesses (snapshots (three_snapshots 1) ! 2) 0x24
   \<and> accesses (snapshots (three_snapshots 1) ! 0) 0x24
   \<and> walk_until_mem_access 3 (three_snapshots 1) 0x24 = Some (Inr (three_snapshots 1))
   \<and> current_snapshot (three_snapshots 1) = 1"
proof -
  have order: "cyclic_from 1 3 = [2, 0, 1]"
    by (simp add: cyclic_from_def upt_conv_Cons)
  have a2: "\<not> accesses (snapshots (three_snapshots 1) ! 2) 0x24"
    by (simp add: three_snapshots_simps accesses_snapshot_with)
  have a0: "accesses (snapshots (three_snapshots 1) ! 0) 0x24"
    by (simp add: three_snapshots_simps accesses_snapshot_with)
  have found: "List.find (\<lambda>j. accesses (snapshots (three_snapshots 1) ! j) 0x24) [2, 0, 1] = Some 0"
    using a2 a0 by simp
  have k: "(1 + 0) mod 3 = (1::nat)" by simp
  note scan = mem_access_loop_scan [of "three_snapshots 1" 0 3 "0x24"]
  note scan = scan [unfolded three_snapshots_length three_snapshots_cursor k order drop_0 found]
  have "mem_access_loop 3 (three_snapshots 1) 0x24 1 = Some (Inr (three_snapshots 1))"
    using scan by simp
  then have "walk_until_mem_access 3 (three_snapshots 1) 0x24 = Some (Inr (three_snapshots 1))"
    by (simp add: walk_until_mem_access_def three_snapshots_cursor)
  then show ?thesis using order a2 a0
    by (simp add: three_snapshots_cursor)
qed

text \<open>
  C10. On an empty store the first step of the loop takes a remainder by zero. On a store
  of \<open>n > 0\<close> snapshots with the cursor at one of its indices, the function returns within
  \<open>n\<close> iterations without indexing outside the store, the cursor it leaves is an index of
  the store, and the store is the same.
\<close>

theorem walk_until_mem_access_defined:
  "(snapshots app = [] \<longrightarrow> 0 < fuel \<longrightarrow>
      walk_until_mem_access fuel app address = Some (Inl DivisionByZero))
   \<and> (snapshots app \<noteq> [] \<longrightarrow> current_snapshot app < length (snapshots app) \<longrightarrow>
      length (snapshots app) \<le> fuel \<longrightarrow>
      (\<exists>app'. walk_until_mem_access fuel app address = Some (Inr app')
          \<and> current_snapshot app' < length (snapshots app')
          \<and> snapshots app' = snapshots app))"
proof (intro conjI impI)
  assume "snapshots app = []" "0 < fuel"
  then show "walk_until_mem_access fuel app address = Some (Inl DivisionByZero)"
    by (cases fuel) (simp_all add: walk_until_mem_access_def)
next
  let ?n = "length (snapshots app)"
  let ?k = "current_snapshot app"
  let ?found = "List.find (\<lambda>j. accesses (snapshots app ! j) address) (cyclic_from ?k ?n)"
  assume a: "snapshots app \<noteq> []" "?k < ?n" "?n \<le> fuel"
  have scan: "walk_until_mem_access fuel app address =
    Some (Inr (case ?found of
        None \<Rightarrow> app
      | Some j \<Rightarrow> if 1 \<le> j
          then app\<lparr>current_snapshot := j - 1, snapshots_scroll_to := True, disassembly_scroll_to := True\<rparr>
          else app))"
    using mem_access_loop_scan [of app 0 fuel address] a
    by (simp add: walk_until_mem_access_def)
  show "\<exists>app'. walk_until_mem_access fuel app address = Some (Inr app')
          \<and> current_snapshot app' < length (snapshots app')
          \<and> snapshots app' = snapshots app"
  proof (cases ?found)
    case None
    then show ?thesis using scan a by simp
  next
    case (Some j)
    then have "j \<in> set (cyclic_from ?k ?n)"
      by (auto simp: find_Some_iff)
    then have "j < ?n" by (rule cyclic_from_below)
    then show ?thesis using scan a Some by auto
  qed
qed

text \<open>
  The session without snapshots meets the remainder by zero; from the third of the three
  snapshots the scan returns with a cursor inside the store.
\<close>

theorem walk_until_mem_access_defined_witness:
  "walk_until_mem_access 1 new_AppState 0x24 = Some (Inl DivisionByZero)
   \<and> (\<exists>app'. walk_until_mem_access 3 (three_snapshots 2) 0x24 = Some (Inr app')
          \<and> current_snapshot app' < length (snapshots app')
          \<and> snapshots app' = snapshots (three_snapshots 2))"
proof -
  have e: "snapshots new_AppState = []" by (simp add: new_AppState_def)
  have h1: "snapshots (three_snapshots 2) \<noteq> []"
    by (simp add: three_snapshots_def)
  have h2: "current_snapshot (three_snapshots 2) < length (snapshots (three_snapshots 2))"
    by (simp add: three_snapshots_simps)
  have h3: "length (snapshots (three_snapshots 2)) \<le> 3"
    by (simp add: three_snapshots_simps)
  show ?thesis
    using walk_until_mem_access_defined [of new_AppState 1 "0x24"]
      walk_until_mem_access_defined [of "three_snapshots 2" 3 "0x24"] e h1 h2 h3
    by simp
qed

section \<open>Searching for bytes\<close>

lemma size_t_minus_small: "b \<le> a \<Longrightarrow> a < 2 ^ 64 \<Longrightarrow> size_t_minus a b = a - b"
proof -
  assume a: "b \<le> a" "a < 2 ^ 64"
  then have e1: "int a - int b = int (a - b)" by simp
  have e2: "int (a - b) mod 2 ^ 64 = int (a - b)"
    using a by (intro mod_pos_pos_trivial) auto
  show ?thesis unfolding size_t_minus_def e1 e2 by (rule nat_int)
qed

lemma find_bytes_loop_no_match:
  assumes "length value_raw \<le> VU1_MEMSIZE D" "VU1_MEMSIZE D < 2 ^ 64"
    "length mem = VU1_MEMSIZE D"
    "\<forall>a. i \<le> a \<and> a < VU1_MEMSIZE D - length value_raw
        \<longrightarrow> take (length value_raw) (drop a mem) \<noteq> value_raw"
  shows "find_bytes_loop D mem value_raw i = Inr NoMatchFound"
  using assms
proof (induction D mem value_raw i rule: find_bytes_loop.induct)
  case (1 D mem value_raw i)
  have bound: "size_t_minus (VU1_MEMSIZE D) (length value_raw) = VU1_MEMSIZE D - length value_raw"
    using "1.prems" by (simp add: size_t_minus_small)
  show ?case
  proof (cases "i < VU1_MEMSIZE D - length value_raw")
    case False
    then show ?thesis by (subst find_bytes_loop.simps) (simp add: bound)
  next
    case True
    then have inside: "\<not> length mem < i + length value_raw" using "1.prems" by simp
    have differs: "take (length value_raw) (drop i mem) \<noteq> value_raw"
      using "1.prems" True by simp
    have "find_bytes_loop D mem value_raw (i + 1) = Inr NoMatchFound"
      using "1.prems" True inside differs
      by (intro "1.IH") (auto simp: bound)
    then show ?thesis using True inside differs
      by (subst find_bytes_loop.simps) (simp add: bound)
  qed
qed

lemma find_bytes_loop_lowest:
  assumes "length value_raw \<le> VU1_MEMSIZE D" "VU1_MEMSIZE D < 2 ^ 64"
    "length mem = VU1_MEMSIZE D"
    "i \<le> a" "a < VU1_MEMSIZE D - length value_raw"
    "take (length value_raw) (drop a mem) = value_raw"
    "\<forall>b. i \<le> b \<and> b < a \<longrightarrow> take (length value_raw) (drop b mem) \<noteq> value_raw"
  shows "find_bytes_loop D mem value_raw i = Inr (FoundMatchAt a)"
  using assms
proof (induction D mem value_raw i rule: find_bytes_loop.induct)
  case (1 D mem value_raw i)
  have bound: "size_t_minus (VU1_MEMSIZE D) (length value_raw) = VU1_MEMSIZE D - length value_raw"
    using "1.prems" by (simp add: size_t_minus_small)
  have lt: "i < VU1_MEMSIZE D - length value_raw" using "1.prems" by simp
  then have inside: "\<not> length mem < i + length value_raw" using "1.prems" by simp
  show ?case
  proof (cases "i = a")
    case True
    then show ?thesis using lt inside "1.prems"
      by (subst find_bytes_loop.simps) (simp add: bound)
  next
    case False
    then have differs: "take (length value_raw) (drop i mem) \<noteq> value_raw"
      using "1.prems" by simp
    have "find_bytes_loop D mem value_raw (i + 1) = Inr (FoundMatchAt a)"
      using "1.prems" False lt inside differs
      by (intro "1.IH") (auto simp: bound)
    then show ?thesis using lt inside differs
      by (subst find_bytes_loop.simps) (simp add: bound)
  qed
qed

lemma find_bytes_pattern_longer_than_memory:
  assumes "VU1_MEMSIZE D < length value_raw" "length value_raw < 2 ^ 64"
    "length mem = VU1_MEMSIZE D"
  shows "find_bytes_loop D mem value_raw 0 = Inl IndexOutOfRange"
proof -
  let ?x = "int (VU1_MEMSIZE D) - int (length value_raw)"
  have "(?x + 2 ^ 64) mod 2 ^ 64 = ?x + 2 ^ 64"
    using assms by (intro mod_pos_pos_trivial) auto
  then have "?x mod 2 ^ 64 = ?x + 2 ^ 64" by simp
  then have "0 < size_t_minus (VU1_MEMSIZE D) (length value_raw)"
    using assms by (simp add: size_t_minus_def)
  then show ?thesis using assms
    by (subst find_bytes_loop.simps) simp
qed

lemma take_one_drop: "a < length xs \<Longrightarrow> take (Suc 0) (drop a xs) = [xs ! a]"
proof -
  assume "a < length xs"
  then have "drop a xs = xs ! a # drop (Suc a) xs"
    by (rule Cons_nth_drop_Suc [symmetric])
  then show ?thesis by simp
qed

lemma memory_ending_in_1_length: "length (memory memory_ending_in_1) = 0x4000"
  by (simp add: memory_ending_in_1_def)

lemma memory_ending_in_1_last: "memory memory_ending_in_1 ! 0x3FFF = 1"
  by (simp add: memory_ending_in_1_def nth_append)

lemma memory_ending_in_1_zero: "a < 0x3FFF \<Longrightarrow> memory memory_ending_in_1 ! a = 0"
  by (simp add: memory_ending_in_1_def nth_append)

text \<open>
  C4, at an input where the code departs from it. The data memory holds zeros and a last
  byte 1, at address 0x3FFF; the pattern is the single byte 1, so the pattern occurs at
  0x3FFF, where address plus length is the size of the memory. The loop stops before that
  address and the search reports no match.
\<close>

theorem find_bytes_misses_last_address:
  "length (memory memory_ending_in_1) = VU1_MEMSIZE vu1_defs
   \<and> take (length [1 :: u8]) (drop 0x3FFF (memory memory_ending_in_1)) = [1]
   \<and> find_bytes vu1_defs memory_ending_in_1 [1] = Inr NoMatchFound"
proof -
  have len: "length (memory memory_ending_in_1) = VU1_MEMSIZE vu1_defs"
    by (simp add: memory_ending_in_1_length vu1_defs_def)
  have there: "take (length [1 :: u8]) (drop 0x3FFF (memory memory_ending_in_1)) = [1]"
    using take_one_drop [of "0x3FFF" "memory memory_ending_in_1"]
    by (simp add: memory_ending_in_1_length memory_ending_in_1_last)
  have nowhere_else: "take (length [1 :: u8]) (drop a (memory memory_ending_in_1)) \<noteq> [1]"
    if "a < VU1_MEMSIZE vu1_defs - length [1 :: u8]" for a
  proof -
    from that have a: "a < 0x3FFF" by (simp add: vu1_defs_def)
    then have "take (Suc 0) (drop a (memory memory_ending_in_1)) = [memory memory_ending_in_1 ! a]"
      by (intro take_one_drop) (simp add: memory_ending_in_1_length)
    then show ?thesis using a by (simp add: memory_ending_in_1_zero)
  qed
  have "find_bytes_loop vu1_defs (memory memory_ending_in_1) [1] 0 = Inr NoMatchFound"
    using len nowhere_else
    by (intro find_bytes_loop_no_match) (auto simp: vu1_defs_def)
  then show ?thesis using len there by (simp add: find_bytes_def)
qed


section \<open>The packet loop\<close>

lemma apply_packet_snapshots:
  "apply_packet D app current packet = Inr (app', current') \<Longrightarrow>
     snapshots app' = (if packet = PushSnapshot then snapshots app @ [current] else snapshots app)"
  by (cases packet)
     (auto simp: push_snapshot_def patch_register_def Let_def split: if_splits sum.splits)

lemma parse_packets_count:
  "parse_packets D version app current trace = Inr (app', current') \<Longrightarrow>
     \<exists>packets. read_packets D version trace = Inr packets
        \<and> length (snapshots app') = length (snapshots app) + count_list packets PushSnapshot"
proof (induction D version app current trace arbitrary: app' current' rule: parse_packets.induct)
  case (1 D version app current)
  then show ?case by simp
next
  case (2 D version app current packet_type trace)
  from "2.prems" obtain packet rest where
    r: "read_packet D version packet_type trace = Inr (packet, rest)"
    by (auto split: sum.splits)
  from "2.prems" r obtain app1 current1 where
    a: "apply_packet D app current packet = Inr (app1, current1)"
    by (auto split: sum.splits)
  from "2.prems" r a have p: "parse_packets D version app1 current1 rest = Inr (app', current')"
    by simp
  from "2.IH" [OF r refl a refl p] obtain packets where
    ps: "read_packets D version rest = Inr packets"
      "length (snapshots app') = length (snapshots app1) + count_list packets PushSnapshot"
    by blast
  have "length (snapshots app1) = length (snapshots app) + (if packet = PushSnapshot then 1 else 0)"
    using apply_packet_snapshots [OF a] by simp
  then show ?case using r ps by simp
qed

lemma slot_in_table:
  assumes "8 dvd n" "a < n"
  shows "a div 8 < n div (8::nat)"
proof -
  from assms(1) obtain k where k: "n = 8 * k" by (auto simp: dvd_def)
  with assms(2) have "a div 8 < k" by (simp add: less_mult_imp_div_less mult.commute)
  then show ?thesis using k by simp
qed

lemma last_of_pushed:
  "xs \<noteq> [] \<Longrightarrow> (xs @ [x]) ! (length (xs @ [x]) - 2) = last xs"
proof -
  assume a: "xs \<noteq> []"
  then have "length (xs @ [x]) - 2 = length xs - 1" by simp
  moreover have "length xs - 1 < length xs" using a by simp
  ultimately show ?thesis using a by (simp add: nth_append last_conv_nth)
qed

lemma increment_eq: "increment m k = m(k \<mapsto> count_at m k + 1)"
  by (simp add: increment_def count_at_def split: option.splits)

lemma record_branch_result:
  assumes "unat pc div 8 < length instrs"
    and "xs \<noteq> [] \<longrightarrow> unat (pc_of D (last xs)) div 8 < length instrs"
  shows "\<exists>instrs'. record_branch D (xs @ [x]) pc instrs = Inr instrs'
       \<and> length instrs' = length instrs
       \<and> (\<forall>i < length instrs.
            is_executed (instrs' ! i) = is_executed (instrs ! i)
          \<and> times_executed (instrs' ! i) = times_executed (instrs ! i)
          \<and> disassembly (instrs' ! i) = disassembly (instrs ! i)
          \<and> branch_to_times (instrs' ! i) =
              (if xs \<noteq> [] \<and> pc_of D (last xs) + 8 \<noteq> pc \<and> i = unat (pc_of D (last xs)) div 8
               then increment (branch_to_times (instrs ! i)) pc
               else branch_to_times (instrs ! i))
          \<and> branch_from_times (instrs' ! i) =
              (if xs \<noteq> [] \<and> pc_of D (last xs) + 8 \<noteq> pc \<and> i = unat pc div 8
               then increment (branch_from_times (instrs ! i)) (pc_of D (last xs))
               else branch_from_times (instrs ! i)))"
proof (cases "xs \<noteq> [] \<and> pc_of D (last xs) + 8 \<noteq> pc")
  case False
  have "record_branch D (xs @ [x]) pc instrs = Inr instrs"
  proof (cases "xs = []")
    case True
    then show ?thesis by (simp add: record_branch_def)
  next
    case ne: False
    then have "2 \<le> length (xs @ [x])" by (cases xs) simp_all
    moreover have prev: "(xs @ [x]) ! (length (xs @ [x]) - 2) = last xs"
      using ne by (rule last_of_pushed)
    moreover have "pc_of D (last xs) + 8 = pc"
      using ne False by simp
    ultimately show ?thesis
      by (simp add: record_branch_def Let_def INSN_PAIR_SIZE_def del: length_append)
  qed
  then show ?thesis using False by auto
next
  case True
  let ?last_pc = "pc_of D (last xs)"
  let ?last_slot = "unat ?last_pc div 8"
  let ?slot = "unat pc div 8"
  let ?i2 = "instrs[?last_slot := (instrs ! ?last_slot)
               \<lparr>branch_to_times := increment (branch_to_times (instrs ! ?last_slot)) pc\<rparr>]"
  let ?i3 = "?i2[?slot := (?i2 ! ?slot)
               \<lparr>branch_from_times := increment (branch_from_times (?i2 ! ?slot)) ?last_pc\<rparr>]"
  have two: "2 \<le> length (xs @ [x])" using True by (cases xs) simp_all
  have prev: "(xs @ [x]) ! (length (xs @ [x]) - 2) = last xs"
    using True by (intro last_of_pushed) simp
  have last_slot: "\<not> length instrs \<le> ?last_slot" using assms True by simp
  have "record_branch D (xs @ [x]) pc instrs = Inr ?i3"
    using two True last_slot
    by (simp add: record_branch_def Let_def INSN_PAIR_SIZE_def prev del: length_append)
  moreover have "\<forall>i < length instrs.
            is_executed (?i3 ! i) = is_executed (instrs ! i)
          \<and> times_executed (?i3 ! i) = times_executed (instrs ! i)
          \<and> disassembly (?i3 ! i) = disassembly (instrs ! i)
          \<and> branch_to_times (?i3 ! i) =
              (if i = ?last_slot then increment (branch_to_times (instrs ! i)) pc
               else branch_to_times (instrs ! i))
          \<and> branch_from_times (?i3 ! i) =
              (if i = ?slot then increment (branch_from_times (instrs ! i)) ?last_pc
               else branch_from_times (instrs ! i))"
    using assms True by (simp add: nth_list_update)
  moreover have "length ?i3 = length instrs" by simp
  ultimately show ?thesis using True by auto
qed

text \<open>The instruction table after a push.\<close>

lemma push_snapshot_result:
  assumes ok: "slots_ok D app"
    and pc: "unat (pc_of D current) < VU1_PROGSIZE D" "unat (pc_of D current) mod 8 = 0"
  shows "\<exists>instrs. push_snapshot D app current =
           Inr (app\<lparr>snapshots := snapshots app @ [current], instructions := instrs\<rparr>,
                current\<lparr>read_addr := 0, read_size := 0, write_addr := 0, write_size := 0\<rparr>)
       \<and> length instrs = length (instructions app)
       \<and> (\<forall>i < length (instructions app).
            branch_to_times (instrs ! i) =
              (if snapshots app \<noteq> [] \<and> pc_of D (last (snapshots app)) + 8 \<noteq> pc_of D current
                   \<and> i = unat (pc_of D (last (snapshots app))) div 8
               then increment (branch_to_times (instructions app ! i)) (pc_of D current)
               else branch_to_times (instructions app ! i))
          \<and> branch_from_times (instrs ! i) =
              (if snapshots app \<noteq> [] \<and> pc_of D (last (snapshots app)) + 8 \<noteq> pc_of D current
                   \<and> i = unat (pc_of D current) div 8
               then increment (branch_from_times (instructions app ! i)) (pc_of D (last (snapshots app)))
               else branch_from_times (instructions app ! i)))"
proof -
  let ?pc = "pc_of D current"
  let ?slot = "unat ?pc div 8"
  let ?instrs = "instructions app"
  let ?i1 = "?instrs[?slot := (?instrs ! ?slot)\<lparr>is_executed := True\<rparr>]"
  have len: "length ?instrs = VU1_PROGSIZE D div 8" and dvd: "8 dvd VU1_PROGSIZE D"
    using ok by (simp_all add: slots_ok_def INSN_PAIR_SIZE_def)
  have slot: "?slot < length ?instrs"
    using slot_in_table [OF dvd pc(1)] len by simp
  have last_slot: "snapshots app \<noteq> [] \<longrightarrow>
      unat (pc_of D (last (snapshots app))) div 8 < length ?i1"
  proof
    assume "snapshots app \<noteq> []"
    then have "last (snapshots app) \<in> set (snapshots app)" by simp
    then have "unat (pc_of D (last (snapshots app))) < VU1_PROGSIZE D"
      using ok by (auto simp: slots_ok_def list_all_iff)
    then show "unat (pc_of D (last (snapshots app))) div 8 < length ?i1"
      using slot_in_table [OF dvd] len by simp
  qed
  have slot1: "?slot < length ?i1" using slot by simp
  from record_branch_result [OF slot1 last_slot, of current] obtain i3 where
    rb: "record_branch D (snapshots app @ [current]) ?pc ?i1 = Inr i3"
    and len3: "length i3 = length ?i1"
    and maps: "\<forall>i < length ?i1.
            is_executed (i3 ! i) = is_executed (?i1 ! i)
          \<and> times_executed (i3 ! i) = times_executed (?i1 ! i)
          \<and> disassembly (i3 ! i) = disassembly (?i1 ! i)
          \<and> branch_to_times (i3 ! i) =
              (if snapshots app \<noteq> [] \<and> pc_of D (last (snapshots app)) + 8 \<noteq> ?pc
                    \<and> i = unat (pc_of D (last (snapshots app))) div 8
               then increment (branch_to_times (?i1 ! i)) ?pc
               else branch_to_times (?i1 ! i))
          \<and> branch_from_times (i3 ! i) =
              (if snapshots app \<noteq> [] \<and> pc_of D (last (snapshots app)) + 8 \<noteq> ?pc \<and> i = ?slot
               then increment (branch_from_times (?i1 ! i)) (pc_of D (last (snapshots app)))
               else branch_from_times (?i1 ! i))"
    by blast
  let ?i4 = "i3[?slot := (i3 ! ?slot)\<lparr>times_executed := times_executed (i3 ! ?slot) + 1\<rparr>]"
  have not_le: "\<not> length ?instrs \<le> ?slot" using slot by simp
  have "push_snapshot D app current =
           Inr (app\<lparr>snapshots := snapshots app @ [current], instructions := ?i4\<rparr>,
                current\<lparr>read_addr := 0, read_size := 0, write_addr := 0, write_size := 0\<rparr>)"
    using pc not_le rb
    by (simp add: push_snapshot_def Let_def INSN_PAIR_SIZE_def)
  moreover have "length ?i4 = length ?instrs" using len3 by simp
  moreover have "branch_to_times (?i4 ! i) =
              (if snapshots app \<noteq> [] \<and> pc_of D (last (snapshots app)) + 8 \<noteq> ?pc
                    \<and> i = unat (pc_of D (last (snapshots app))) div 8
               then increment (branch_to_times (?instrs ! i)) ?pc
               else branch_to_times (?instrs ! i))
          \<and> branch_from_times (?i4 ! i) =
              (if snapshots app \<noteq> [] \<and> pc_of D (last (snapshots app)) + 8 \<noteq> ?pc \<and> i = ?slot
               then increment (branch_from_times (?instrs ! i)) (pc_of D (last (snapshots app)))
               else branch_from_times (?instrs ! i))"
    if "i < length ?instrs" for i
  proof -
    have "branch_to_times (?i4 ! i) = branch_to_times (i3 ! i)"
      "branch_from_times (?i4 ! i) = branch_from_times (i3 ! i)"
      using that len3 slot by (simp_all add: nth_list_update)
    moreover have "branch_to_times (?i1 ! i) = branch_to_times (?instrs ! i)"
      "branch_from_times (?i1 ! i) = branch_from_times (?instrs ! i)"
      using that slot by (simp_all add: nth_list_update)
    ultimately show ?thesis using maps that by simp
  qed
  ultimately show ?thesis by blast
qed

lemma push_succeeds:
  assumes "slots_ok D app" "unat (pc_of D current) < VU1_PROGSIZE D"
    "unat (pc_of D current) mod 8 = 0"
  shows "\<exists>app'. apply_packet D app current PushSnapshot =
            Inr (app', current\<lparr>read_addr := 0, read_size := 0, write_addr := 0, write_size := 0\<rparr>)
          \<and> snapshots app' = snapshots app @ [current]"
  using push_snapshot_result [OF assms] by auto

lemma record_branch_length:
  "record_branch D snaps pc instrs = Inr instrs' \<Longrightarrow> length instrs' = length instrs"
  by (auto simp: record_branch_def Let_def split: if_splits)

lemma apply_packet_instructions_length:
  "apply_packet D app current packet = Inr (app', current') \<Longrightarrow>
     length (instructions app') = length (instructions app)"
  by (cases packet)
     (auto simp: push_snapshot_def patch_register_def Let_def dest: record_branch_length
           split: if_splits sum.splits)

lemma parse_packets_instructions_length:
  "parse_packets D version app current trace = Inr (app', current') \<Longrightarrow>
     length (instructions app') = length (instructions app)"
proof (induction D version app current trace arbitrary: app' current' rule: parse_packets.induct)
  case (1 D version app current)
  then show ?case by simp
next
  case (2 D version app current packet_type trace)
  from "2.prems" obtain packet rest where
    r: "read_packet D version packet_type trace = Inr (packet, rest)"
    by (auto split: sum.splits)
  from "2.prems" r obtain app1 current1 where
    a: "apply_packet D app current packet = Inr (app1, current1)"
    by (auto split: sum.splits)
  from "2.prems" r a have p: "parse_packets D version app1 current1 rest = Inr (app', current')"
    by simp
  from "2.IH" [OF r refl a refl p] apply_packet_instructions_length [OF a]
  show ?case by simp
qed

lemma begin_trace_slots_ok: "8 dvd VU1_PROGSIZE D \<Longrightarrow> slots_ok D (begin_trace D app path)"
  by (simp add: slots_ok_def begin_trace_def resize_def)

lemma apply_packet_slots_ok:
  assumes "slots_ok D app" "apply_packet D app current packet = Inr (app', current')"
  shows "slots_ok D app'"
proof -
  have len: "length (instructions app') = length (instructions app)"
    using assms(2) by (rule apply_packet_instructions_length)
  have snaps: "snapshots app' =
      (if packet = PushSnapshot then snapshots app @ [current] else snapshots app)"
    using assms(2) by (rule apply_packet_snapshots)
  have "unat (pc_of D current) < VU1_PROGSIZE D" if "packet = PushSnapshot"
    using assms(2) that by (auto simp: push_snapshot_def split: if_splits)
  then show ?thesis using assms(1) len snaps
    by (auto simp: slots_ok_def)
qed

lemma parse_packets_slots_ok:
  "slots_ok D app \<Longrightarrow> parse_packets D version app current trace = Inr (app', current') \<Longrightarrow>
     slots_ok D app'"
proof (induction D version app current trace arbitrary: app' current' rule: parse_packets.induct)
  case (1 D version app current)
  then show ?case by simp
next
  case (2 D version app current packet_type trace)
  from "2.prems" obtain packet rest where
    r: "read_packet D version packet_type trace = Inr (packet, rest)"
    by (auto split: sum.splits)
  from "2.prems" r obtain app1 current1 where
    a: "apply_packet D app current packet = Inr (app1, current1)"
    by (auto split: sum.splits)
  from "2.prems" r a have p: "parse_packets D version app1 current1 rest = Inr (app', current')"
    by simp
  have "slots_ok D app1" using "2.prems"(1) a by (rule apply_packet_slots_ok)
  then show ?case using "2.IH" [OF r refl a refl _ p] by simp
qed

lemma disassemble_all_succeeds:
  "slots_ok D app \<Longrightarrow> \<not> isl (disassemble_all D app current)"
proof -
  assume "slots_ok D app"
  then have "8 dvd VU1_PROGSIZE D" "length (instructions app) = VU1_PROGSIZE D div 8"
    by (simp_all add: slots_ok_def INSN_PAIR_SIZE_def)
  then have "\<not> length (instructions app) < (VU1_PROGSIZE D + 7) div 8"
    by (auto simp: dvd_def)
  then show ?thesis by (simp add: disassemble_all_def)
qed

lemma read_header_headerless:
  "4 \<le> length trace \<Longrightarrow> take 4 trace \<noteq> VUTR \<Longrightarrow> read_header trace = Inr (1, trace)"
  by (simp add: read_header_def fread_def)

lemma read_header_short: "length trace < 4 \<Longrightarrow> read_header trace = Inl UnexpectedEndOfFile"
  by (simp add: read_header_def fread_def)

lemma parse_trace_succeeds:
  assumes "8 dvd VU1_PROGSIZE D" "read_header trace = Inr (version, packets)" "\<not> version > 3"
    "\<not> isl (parse_packets D version (begin_trace D app path) (new_Snapshot D mem0 prog0) packets)"
  shows "\<not> isl (parse_trace D mem0 prog0 app path (Some trace))"
proof -
  from assms(4) obtain app' current where
    p: "parse_packets D version (begin_trace D app path) (new_Snapshot D mem0 prog0) packets
          = Inr (app', current)"
    by (cases "parse_packets D version (begin_trace D app path) (new_Snapshot D mem0 prog0) packets")
       auto
  have "slots_ok D (begin_trace D app path)" using assms(1) by (rule begin_trace_slots_ok)
  then have "slots_ok D app'" using p by (rule parse_packets_slots_ok)
  then have "\<not> isl (disassemble_all D app' current)" by (rule disassemble_all_succeeds)
  then show ?thesis using assms(2,3) p by (simp add: parse_trace_def)
qed

lemma pc_of_access_update:
  "pc_of D (s\<lparr>read_addr := a, read_size := b\<rparr>) = pc_of D s"
  "pc_of D (s\<lparr>read_addr := a, read_size := b, write_addr := c, write_size := d\<rparr>) = pc_of D s"
  by (simp_all add: pc_of_def)

lemma pc_of_new_Snapshot: "pc_of D (new_Snapshot D mem0 prog0) = 0"
proof -
  have "take 4 (drop k (replicate n (0 :: u8))) = replicate (min 4 (n - k)) 0" for k n
    by simp
  then show ?thesis
    by (simp only: pc_of_def new_Snapshot_def Snapshot.simps le_word_zeros)
qed

lemma le_word_2: "(le_word [a, b] :: u16) = ucast a OR push_bit 8 (ucast b)"
  by (simp add: le_word_def)

lemma le_word_4:
  "(le_word [a, b, c, d] :: u32) =
     ucast a OR push_bit 8 (ucast b OR push_bit 8 (ucast c OR push_bit 8 (ucast d)))"
  by (simp add: le_word_def)

lemma read_load:
  "read_packet D version 0x4C (0x20 # 0 # 0 # 0 # 0x10 # 0 # 0 # 0 # rest) =
     Inr (LoadOp 0x20 0x10, rest)"
  by (simp add: read_packet_def fread_def le_word_4
        VUTRACE_PUSHSNAPSHOT_def VUTRACE_SETREGISTERS_def VUTRACE_SETMEMORY_def
        VUTRACE_SETINSTRUCTIONS_def VUTRACE_LOADOP_def)

lemma read_push: "read_packet D version 0x50 rest = Inr (PushSnapshot, rest)"
  by (simp add: read_packet_def VUTRACE_PUSHSNAPSHOT_def)



lemma patch_memory_guard:
  "apply_packet D app current (PatchMemory address data) =
     (if unat address + 4 < VU1_MEMSIZE D
      then Inr (app, current\<lparr>memory := memcpy (memory current) (unat address) (le_bytes 4 data)\<rparr>)
      else Inl AddressTooBig)"
proof -
  have "(int (unat address) < int (VU1_MEMSIZE D) - 4) = (unat address + 4 < VU1_MEMSIZE D)"
    by linarith
  then show ?thesis by (simp only: apply_packet.simps)
qed







section \<open>The concrete traces\<close>

lemma vu1_progsize: "VU1_PROGSIZE vu1_defs = 0x4000"
  by (simp add: vu1_defs_def)

lemma slots_ok_three_snapshots: "slots_ok vu1_defs (three_snapshots c)"
proof -
  have "8 dvd VU1_PROGSIZE vu1_defs" by (simp add: vu1_defs_def)
  moreover have "length (instructions (three_snapshots c)) = VU1_PROGSIZE vu1_defs div INSN_PAIR_SIZE"
    by (simp add: three_snapshots_def vu1_defs_def INSN_PAIR_SIZE_def)
  moreover have "VU1_PROGSIZE vu1_defs = 0x4000" by (simp add: vu1_defs_def)
  then have "list_all (\<lambda>s. unat (pc_of vu1_defs s) < VU1_PROGSIZE vu1_defs)
      (snapshots (three_snapshots c))"
    by (simp add: three_snapshots_store pc_of_snapshot_with)
  ultimately show ?thesis by (simp only: slots_ok_def simp_thms)
qed

lemma three_snapshots_last:
  "snapshots (three_snapshots c) \<noteq> []"
  "last (snapshots (three_snapshots c)) = snapshot_with 0 0 0 0x30 16"
  by (simp_all add: three_snapshots_def)

lemma three_snapshots_instructions:
  "length (instructions (three_snapshots c)) = 2048"
  "i < 2048 \<Longrightarrow> instructions (three_snapshots c) ! i = new_Instruction"
  by (simp_all add: three_snapshots_def)

lemma new_Instruction_maps:
  "branch_to_times new_Instruction = Map.empty"
  "branch_from_times new_Instruction = Map.empty"
  by (simp_all add: new_Instruction_def)

lemma count_at_empty: "count_at Map.empty k = 0"
  by (simp add: count_at_def)

lemma read_header_version_3_trace:
  "read_header version_3_trace =
     Inr (3, [0x50, 0x4C, 0x20, 0, 0, 0, 0x10, 0, 0, 0, 0x50])"
  by (simp add: read_header_def fread_def version_3_trace_def VUTR_def le_word_4)

lemma read_header_patch_last_word_trace:
  "read_header patch_last_word_trace = Inr (3, [0x6D, 0xFC, 0x3F, 0xEF, 0xBE, 0xAD, 0xDE])"
  by (simp add: read_header_def fread_def patch_last_word_trace_def VUTR_def le_word_4)

lemma read_patch_last_word:
  "read_packet D 3 0x6D [0xFC, 0x3F, 0xEF, 0xBE, 0xAD, 0xDE] =
     Inr (PatchMemory 0x3FFC 0xDEADBEEF, [])"
  by (simp add: read_packet_def fread_def le_word_2 le_word_4
        VUTRACE_PUSHSNAPSHOT_def VUTRACE_SETREGISTERS_def VUTRACE_SETMEMORY_def
        VUTRACE_SETINSTRUCTIONS_def VUTRACE_LOADOP_def VUTRACE_STOREOP_def
        VUTRACE_PATCHREGISTER_def VUTRACE_PATCHMEMORY_def)

lemma headerless_trace_packets:
  "\<not> isl (parse_packets vu1_defs 1 (begin_trace vu1_defs new_AppState [])
            (new_Snapshot vu1_defs zero_bytes zero_bytes) headerless_trace)"
proof -
  let ?app = "begin_trace vu1_defs new_AppState []"
  let ?cur = "new_Snapshot vu1_defs zero_bytes zero_bytes"
  let ?cur1 = "?cur\<lparr>read_addr := 0x20, read_size := 0x10\<rparr>"
  have ok: "slots_ok vu1_defs ?app"
    by (rule begin_trace_slots_ok) (simp add: vu1_defs_def)
  have pc: "pc_of vu1_defs ?cur1 = 0"
    by (simp only: pc_of_access_update pc_of_new_Snapshot)
  have "unat (pc_of vu1_defs ?cur1) < VU1_PROGSIZE vu1_defs" "unat (pc_of vu1_defs ?cur1) mod 8 = 0"
    unfolding pc by (simp_all add: vu1_progsize)
  from push_succeeds [OF ok this] obtain app' where
    "apply_packet vu1_defs ?app ?cur1 PushSnapshot =
       Inr (app', ?cur1\<lparr>read_addr := 0, read_size := 0, write_addr := 0, write_size := 0\<rparr>)"
    by blast
  then show ?thesis
    by (simp add: headerless_trace_def read_load read_push)
qed

lemma version_3_trace_parses:
  "\<not> isl (parse_trace vu1_defs zero_bytes zero_bytes new_AppState [] (Some version_3_trace))"
proof -
  let ?app = "begin_trace vu1_defs new_AppState []"
  let ?cur = "new_Snapshot vu1_defs zero_bytes zero_bytes"
  let ?cur1 = "?cur\<lparr>read_addr := 0, read_size := 0, write_addr := 0, write_size := 0\<rparr>"
  let ?cur2 = "?cur1\<lparr>read_addr := 0x20, read_size := 0x10\<rparr>"
  have d: "8 dvd VU1_PROGSIZE vu1_defs" by (simp add: vu1_progsize)
  have ok: "slots_ok vu1_defs ?app" using d by (rule begin_trace_slots_ok)
  have "unat (pc_of vu1_defs ?cur) < VU1_PROGSIZE vu1_defs" "unat (pc_of vu1_defs ?cur) mod 8 = 0"
    unfolding pc_of_new_Snapshot by (simp_all add: vu1_progsize)
  from push_succeeds [OF ok this] obtain app1 where
    a1: "apply_packet vu1_defs ?app ?cur PushSnapshot = Inr (app1, ?cur1)"
    by blast
  have ok1: "slots_ok vu1_defs app1" using ok a1 by (rule apply_packet_slots_ok)
  have a2: "apply_packet vu1_defs app1 ?cur1 (LoadOp 0x20 0x10) = Inr (app1, ?cur2)"
    by simp
  have "unat (pc_of vu1_defs ?cur2) < VU1_PROGSIZE vu1_defs" "unat (pc_of vu1_defs ?cur2) mod 8 = 0"
    unfolding pc_of_access_update pc_of_new_Snapshot by (simp_all add: vu1_progsize)
  from push_succeeds [OF ok1 this] obtain app2 where
    a3: "apply_packet vu1_defs app1 ?cur2 PushSnapshot =
          Inr (app2, ?cur2\<lparr>read_addr := 0, read_size := 0, write_addr := 0, write_size := 0\<rparr>)"
    by blast
  have "\<not> isl (parse_packets vu1_defs 3 ?app ?cur [0x50, 0x4C, 0x20, 0, 0, 0, 0x10, 0, 0, 0, 0x50])"
    using a1 a2 a3 by (simp add: read_push read_load del: apply_packet.simps)
  then show ?thesis
    using d read_header_version_3_trace by (intro parse_trace_succeeds) auto
qed

lemma version_3_trace_packets:
  "trace_packets vu1_defs version_3_trace = Inr [PushSnapshot, LoadOp 0x20 0x10, PushSnapshot]"
  by (simp add: trace_packets_def read_header_version_3_trace read_push read_load)

section \<open>What the trace reader does\<close>

text \<open>
  C2, at an input where the code departs from it. With a data memory of 0x4000 bytes the
  address 0x3FFC is \<^verbatim>\<open>VU1_MEMSIZE - 4\<close>, the address of the last four bytes. The
  packet is rejected with "'m' packet has address that is too big", and so is the trace of
  version 3 that holds this packet alone.
\<close>

theorem patch_memory_last_word_rejected:
  "int (unat (0x3FFC :: u16)) + 4 = int (VU1_MEMSIZE vu1_defs)
   \<and> apply_packet vu1_defs app current (PatchMemory 0x3FFC data) = Inl AddressTooBig
   \<and> parse_trace vu1_defs mem0 prog0 app path (Some patch_last_word_trace) = Inl AddressTooBig"
proof -
  have a: "int (unat (0x3FFC :: u16)) + 4 = int (VU1_MEMSIZE vu1_defs)"
    by (simp add: vu1_defs_def)
  have b: "apply_packet vu1_defs app' current' (PatchMemory 0x3FFC data') = Inl AddressTooBig"
    for app' current' data'
    by (simp add: vu1_defs_def)
  have "parse_packets vu1_defs 3 (begin_trace vu1_defs app path) (new_Snapshot vu1_defs mem0 prog0)
          [0x6D, 0xFC, 0x3F, 0xEF, 0xBE, 0xAD, 0xDE] = Inl AddressTooBig"
    by (simp add: read_patch_last_word b del: apply_packet.simps)
  then have "parse_trace vu1_defs mem0 prog0 app path (Some patch_last_word_trace) = Inl AddressTooBig"
    by (simp add: parse_trace_def read_header_patch_last_word_trace)
  then show ?thesis using a b by blast
qed




text \<open>
  C5, as the code has it. A trace of at least four bytes that does not begin with "VUTR" is
  of version 1 and is read from its first byte: parse_trace is the packet loop of version 1
  over the whole trace, followed by the disassembly, and when 8 divides the size of the
  program memory and the packet loop accepts the trace, parse_trace accepts it. A trace of
  fewer than four bytes is rejected with "Unexpected end of file" by the read of the magic.
\<close>

theorem headerless_trace_is_version_1:
  "(4 \<le> length trace \<and> take 4 trace \<noteq> VUTR \<longrightarrow>
      parse_trace D mem0 prog0 app path (Some trace) =
        (case parse_packets D 1 (begin_trace D app path) (new_Snapshot D mem0 prog0) trace of
           Inl e \<Rightarrow> Inl e
         | Inr (app', current) \<Rightarrow> disassemble_all D app' current)
      \<and> (8 dvd VU1_PROGSIZE D
          \<and> \<not> isl (parse_packets D 1 (begin_trace D app path) (new_Snapshot D mem0 prog0) trace)
        \<longrightarrow> \<not> isl (parse_trace D mem0 prog0 app path (Some trace))))
   \<and> (length trace < 4 \<longrightarrow>
        parse_trace D mem0 prog0 app path (Some trace) = Inl UnexpectedEndOfFile)"
proof (intro conjI impI)
  assume "length trace < 4"
  then show "parse_trace D mem0 prog0 app path (Some trace) = Inl UnexpectedEndOfFile"
    by (simp add: parse_trace_def read_header_short)
next
  assume a: "4 \<le> length trace \<and> take 4 trace \<noteq> VUTR"
  then have h: "read_header trace = Inr (1, trace)"
    by (simp add: read_header_headerless)
  show eq: "parse_trace D mem0 prog0 app path (Some trace) =
        (case parse_packets D 1 (begin_trace D app path) (new_Snapshot D mem0 prog0) trace of
           Inl e \<Rightarrow> Inl e
         | Inr (app', current) \<Rightarrow> disassemble_all D app' current)"
    by (simp add: parse_trace_def h)
  assume b: "8 dvd VU1_PROGSIZE D
      \<and> \<not> isl (parse_packets D 1 (begin_trace D app path) (new_Snapshot D mem0 prog0) trace)"
  then obtain app' current where
    p: "parse_packets D 1 (begin_trace D app path) (new_Snapshot D mem0 prog0) trace
          = Inr (app', current)"
    by (cases "parse_packets D 1 (begin_trace D app path) (new_Snapshot D mem0 prog0) trace") auto
  have "slots_ok D (begin_trace D app path)" using b by (simp add: begin_trace_slots_ok)
  then have "slots_ok D app'" using p by (rule parse_packets_slots_ok)
  then have "\<not> isl (disassemble_all D app' current)" by (rule disassemble_all_succeeds)
  then show "\<not> isl (parse_trace D mem0 prog0 app path (Some trace))"
    by (simp add: eq p)
qed

text \<open>
  The trace without header of a load and a push is accepted; the single byte of a push is
  rejected.
\<close>

theorem headerless_trace_is_version_1_witness:
  "(4 \<le> length headerless_trace \<and> take 4 headerless_trace \<noteq> VUTR)
   \<and> 8 dvd VU1_PROGSIZE vu1_defs
   \<and> \<not> isl (parse_packets vu1_defs 1 (begin_trace vu1_defs new_AppState [])
               (new_Snapshot vu1_defs zero_bytes zero_bytes) headerless_trace)
   \<and> \<not> isl (parse_trace vu1_defs zero_bytes zero_bytes new_AppState [] (Some headerless_trace))
   \<and> length [0x50 :: u8] < 4
   \<and> parse_trace vu1_defs zero_bytes zero_bytes new_AppState [] (Some [0x50]) =
       Inl UnexpectedEndOfFile"
proof -
  have h: "4 \<le> length headerless_trace \<and> take 4 headerless_trace \<noteq> VUTR"
    by (simp add: headerless_trace_def VUTR_def)
  have d: "8 dvd VU1_PROGSIZE vu1_defs" by (simp add: vu1_defs_def)
  have s: "length [0x50 :: u8] < 4" by simp
  note v1 = headerless_trace_is_version_1
    [of headerless_trace vu1_defs zero_bytes zero_bytes new_AppState "[]"]
  note short = headerless_trace_is_version_1
    [of "[0x50]" vu1_defs zero_bytes zero_bytes new_AppState "[]"]
  show ?thesis using v1 short h d s headerless_trace_packets by blast
qed

text \<open>
  Against C5 as it was stated: the empty trace and the trace of the single byte 'P' are
  accepted by the packet loop of version 1, and parse_trace rejects both with "Unexpected end
  of file".
\<close>

theorem headerless_short_stream_counterexample:
  "\<not> isl (parse_packets vu1_defs 1 (begin_trace vu1_defs new_AppState [])
               (new_Snapshot vu1_defs zero_bytes zero_bytes) [])
   \<and> parse_trace vu1_defs zero_bytes zero_bytes new_AppState [] (Some []) =
       Inl UnexpectedEndOfFile
   \<and> \<not> isl (parse_packets vu1_defs 1 (begin_trace vu1_defs new_AppState [])
               (new_Snapshot vu1_defs zero_bytes zero_bytes) [0x50])
   \<and> parse_trace vu1_defs zero_bytes zero_bytes new_AppState [] (Some [0x50]) =
       Inl UnexpectedEndOfFile"
proof -
  let ?app = "begin_trace vu1_defs new_AppState []"
  let ?cur = "new_Snapshot vu1_defs zero_bytes zero_bytes"
  have ok: "slots_ok vu1_defs ?app"
    by (rule begin_trace_slots_ok) (simp add: vu1_defs_def)
  have "unat (pc_of vu1_defs ?cur) < VU1_PROGSIZE vu1_defs" "unat (pc_of vu1_defs ?cur) mod 8 = 0"
    unfolding pc_of_new_Snapshot by (simp_all add: vu1_progsize)
  from push_succeeds [OF ok this] obtain app' where
    "apply_packet vu1_defs ?app ?cur PushSnapshot =
       Inr (app', ?cur\<lparr>read_addr := 0, read_size := 0, write_addr := 0, write_size := 0\<rparr>)"
    by blast
  then have one: "\<not> isl (parse_packets vu1_defs 1 ?app ?cur [0x50])"
    by (simp add: read_push)
  have none: "\<not> isl (parse_packets vu1_defs 1 ?app ?cur [])" by simp
  have e0: "parse_trace vu1_defs zero_bytes zero_bytes new_AppState [] (Some []) =
       Inl UnexpectedEndOfFile"
    by (simp add: parse_trace_def read_header_short)
  have e1: "parse_trace vu1_defs zero_bytes zero_bytes new_AppState [] (Some [0x50]) =
       Inl UnexpectedEndOfFile"
    by (simp add: parse_trace_def read_header_short)
  show ?thesis using none e0 one e1 by blast
qed

text \<open>
  C6. When parse_trace accepts a trace, the store holds as many snapshots as the packets of
  the trace contain pushes. A packet that is applied appends the current state to the store
  when it is a push, and leaves the store as it was when it is any other packet.
\<close>

theorem parse_trace_snapshot_count:
  "(parse_trace D mem0 prog0 app path (Some trace) = Inr app' \<longrightarrow>
      (\<exists>packets. trace_packets D trace = Inr packets
         \<and> length (snapshots app') = count_list packets PushSnapshot))
   \<and> (apply_packet D app current packet = Inr (app1, current1) \<longrightarrow>
      snapshots app1 = (if packet = PushSnapshot then snapshots app @ [current] else snapshots app))"
proof (intro conjI impI)
  assume ok: "parse_trace D mem0 prog0 app path (Some trace) = Inr app'"
  let ?app0 = "begin_trace D app path"
  from ok obtain version packets where
    h: "read_header trace = Inr (version, packets)"
    by (auto simp: parse_trace_def Let_def split: sum.splits)
  from ok h have v: "\<not> version > 3"
    by (auto simp: parse_trace_def Let_def split: if_splits)
  from ok h v obtain app2 current2 where
    p: "parse_packets D version ?app0 (new_Snapshot D mem0 prog0) packets = Inr (app2, current2)"
    by (auto simp: parse_trace_def Let_def split: sum.splits)
  from ok h v p have d: "disassemble_all D app2 current2 = Inr app'"
    by (simp add: parse_trace_def Let_def)
  then have same: "snapshots app' = snapshots app2"
    by (auto simp: disassemble_all_def split: if_splits)
  from parse_packets_count [OF p] obtain ps where
    "read_packets D version packets = Inr ps"
    "length (snapshots app2) = length (snapshots ?app0) + count_list ps PushSnapshot"
    by blast
  moreover have "snapshots ?app0 = []" by (simp add: begin_trace_def)
  ultimately show "\<exists>packets. trace_packets D trace = Inr packets
         \<and> length (snapshots app') = count_list packets PushSnapshot"
    using h v same by (simp add: trace_packets_def)
next
  assume "apply_packet D app current packet = Inr (app1, current1)"
  then show "snapshots app1 = (if packet = PushSnapshot then snapshots app @ [current] else snapshots app)"
    by (rule apply_packet_snapshots)
qed

text \<open>
  The trace of version 3 with a push, a load and a push is accepted and leaves two
  snapshots.
\<close>

theorem parse_trace_snapshot_count_witness:
  "\<exists>app'. parse_trace vu1_defs zero_bytes zero_bytes new_AppState [] (Some version_3_trace) = Inr app'
      \<and> trace_packets vu1_defs version_3_trace = Inr [PushSnapshot, LoadOp 0x20 0x10, PushSnapshot]
      \<and> length (snapshots app') = 2"
proof -
  from version_3_trace_parses obtain app' where
    p: "parse_trace vu1_defs zero_bytes zero_bytes new_AppState [] (Some version_3_trace) = Inr app'"
    by (cases "parse_trace vu1_defs zero_bytes zero_bytes new_AppState [] (Some version_3_trace)")
       auto
  from parse_trace_snapshot_count
    [of vu1_defs zero_bytes zero_bytes new_AppState "[]" version_3_trace app']
    p version_3_trace_packets
  have "length (snapshots app') = 2" by simp
  then show ?thesis using p version_3_trace_packets by blast
qed

text \<open>
  C7. A push that is taken appends the current state to the store and keeps the length of
  the instruction table. When the store was not empty and the program counter of its last
  snapshot plus 8 differs from the one of the current state, the count for the new
  program counter in \<^verbatim>\<open>branch_to_times\<close> of the last snapshot's slot goes up by one, the
  count for the last program counter in \<^verbatim>\<open>branch_from_times\<close> of the new slot goes up
  by one, and every other map of every slot is unchanged. When the store was empty or the
  new program counter is the last one plus 8, all maps of all slots are unchanged.
\<close>

theorem push_snapshot_branch_bookkeeping:
  assumes "slots_ok D app"
    and "unat (pc_of D current) < VU1_PROGSIZE D"
    and "unat (pc_of D current) mod 8 = 0"
  shows "\<exists>app' current'. apply_packet D app current PushSnapshot = Inr (app', current')
     \<and> snapshots app' = snapshots app @ [current]
     \<and> length (instructions app') = length (instructions app)
     \<and> (\<forall>i < length (instructions app).
          branch_to_times (instructions app' ! i) =
            (if snapshots app \<noteq> [] \<and> pc_of D (last (snapshots app)) + 8 \<noteq> pc_of D current
                 \<and> i = unat (pc_of D (last (snapshots app))) div 8
             then (branch_to_times (instructions app ! i))
                    (pc_of D current \<mapsto>
                       count_at (branch_to_times (instructions app ! i)) (pc_of D current) + 1)
             else branch_to_times (instructions app ! i))
        \<and> branch_from_times (instructions app' ! i) =
            (if snapshots app \<noteq> [] \<and> pc_of D (last (snapshots app)) + 8 \<noteq> pc_of D current
                 \<and> i = unat (pc_of D current) div 8
             then (branch_from_times (instructions app ! i))
                    (pc_of D (last (snapshots app)) \<mapsto>
                       count_at (branch_from_times (instructions app ! i))
                         (pc_of D (last (snapshots app))) + 1)
             else branch_from_times (instructions app ! i)))"
proof -
  from push_snapshot_result [OF assms] obtain instrs where
    r: "push_snapshot D app current =
           Inr (app\<lparr>snapshots := snapshots app @ [current], instructions := instrs\<rparr>,
                current\<lparr>read_addr := 0, read_size := 0, write_addr := 0, write_size := 0\<rparr>)"
    and l: "length instrs = length (instructions app)"
    and m: "\<forall>i < length (instructions app).
            branch_to_times (instrs ! i) =
              (if snapshots app \<noteq> [] \<and> pc_of D (last (snapshots app)) + 8 \<noteq> pc_of D current
                   \<and> i = unat (pc_of D (last (snapshots app))) div 8
               then increment (branch_to_times (instructions app ! i)) (pc_of D current)
               else branch_to_times (instructions app ! i))
          \<and> branch_from_times (instrs ! i) =
              (if snapshots app \<noteq> [] \<and> pc_of D (last (snapshots app)) + 8 \<noteq> pc_of D current
                   \<and> i = unat (pc_of D current) div 8
               then increment (branch_from_times (instructions app ! i)) (pc_of D (last (snapshots app)))
               else branch_from_times (instructions app ! i))"
    by blast
  let ?app' = "app\<lparr>snapshots := snapshots app @ [current], instructions := instrs\<rparr>"
  have "apply_packet D app current PushSnapshot =
      Inr (?app', current\<lparr>read_addr := 0, read_size := 0, write_addr := 0, write_size := 0\<rparr>)"
    using r by simp
  moreover have "snapshots ?app' = snapshots app @ [current]" by simp
  moreover have "length (instructions ?app') = length (instructions app)" using l by simp
  moreover have "\<forall>i < length (instructions app).
          branch_to_times (instructions ?app' ! i) =
            (if snapshots app \<noteq> [] \<and> pc_of D (last (snapshots app)) + 8 \<noteq> pc_of D current
                 \<and> i = unat (pc_of D (last (snapshots app))) div 8
             then (branch_to_times (instructions app ! i))
                    (pc_of D current \<mapsto>
                       count_at (branch_to_times (instructions app ! i)) (pc_of D current) + 1)
             else branch_to_times (instructions app ! i))
        \<and> branch_from_times (instructions ?app' ! i) =
            (if snapshots app \<noteq> [] \<and> pc_of D (last (snapshots app)) + 8 \<noteq> pc_of D current
                 \<and> i = unat (pc_of D current) div 8
             then (branch_from_times (instructions app ! i))
                    (pc_of D (last (snapshots app)) \<mapsto>
                       count_at (branch_from_times (instructions app ! i))
                         (pc_of D (last (snapshots app))) + 1)
             else branch_from_times (instructions app ! i))"
    using m by (simp add: increment_eq)
  ultimately show ?thesis by blast
qed

text \<open>
  After the three snapshots, whose last program counter is 0, a push at 16 records the
  branch from 0 to 16 in slot 0 and in slot 2.
\<close>

theorem push_snapshot_branch_bookkeeping_witness:
  "slots_ok vu1_defs (three_snapshots 0)
   \<and> unat (pc_of vu1_defs (snapshot_with 16 0 0 0 0)) < VU1_PROGSIZE vu1_defs
   \<and> unat (pc_of vu1_defs (snapshot_with 16 0 0 0 0)) mod 8 = 0
   \<and> (\<exists>app' current'.
         apply_packet vu1_defs (three_snapshots 0) (snapshot_with 16 0 0 0 0) PushSnapshot
           = Inr (app', current')
       \<and> branch_to_times (instructions app' ! 0) = [16 \<mapsto> 1]
       \<and> branch_from_times (instructions app' ! 2) = [0 \<mapsto> 1]
       \<and> branch_from_times (instructions app' ! 0) = Map.empty
       \<and> branch_to_times (instructions app' ! 2) = Map.empty)"
proof -
  let ?app = "three_snapshots 0"
  let ?cur = "snapshot_with 16 0 0 0 0"
  have h1: "slots_ok vu1_defs ?app" by (rule slots_ok_three_snapshots)
  have h2: "unat (pc_of vu1_defs ?cur) < VU1_PROGSIZE vu1_defs"
    by (simp add: pc_of_snapshot_with vu1_progsize)
  have h3: "unat (pc_of vu1_defs ?cur) mod 8 = 0"
    by (simp add: pc_of_snapshot_with)
  from push_snapshot_branch_bookkeeping [OF h1 h2 h3] obtain app' current' where
    a: "apply_packet vu1_defs ?app ?cur PushSnapshot = Inr (app', current')"
    and m: "\<forall>i < length (instructions ?app).
          branch_to_times (instructions app' ! i) =
            (if snapshots ?app \<noteq> [] \<and> pc_of vu1_defs (last (snapshots ?app)) + 8 \<noteq> pc_of vu1_defs ?cur
                 \<and> i = unat (pc_of vu1_defs (last (snapshots ?app))) div 8
             then (branch_to_times (instructions ?app ! i))
                    (pc_of vu1_defs ?cur \<mapsto>
                       count_at (branch_to_times (instructions ?app ! i)) (pc_of vu1_defs ?cur) + 1)
             else branch_to_times (instructions ?app ! i))
        \<and> branch_from_times (instructions app' ! i) =
            (if snapshots ?app \<noteq> [] \<and> pc_of vu1_defs (last (snapshots ?app)) + 8 \<noteq> pc_of vu1_defs ?cur
                 \<and> i = unat (pc_of vu1_defs ?cur) div 8
             then (branch_from_times (instructions ?app ! i))
                    (pc_of vu1_defs (last (snapshots ?app)) \<mapsto>
                       count_at (branch_from_times (instructions ?app ! i))
                         (pc_of vu1_defs (last (snapshots ?app))) + 1)
             else branch_from_times (instructions ?app ! i))"
    by blast
  have m': "\<forall>i < 2048.
          branch_to_times (instructions app' ! i) = (if i = 0 then [16 \<mapsto> 1] else Map.empty)
        \<and> branch_from_times (instructions app' ! i) = (if i = 2 then [0 \<mapsto> 1] else Map.empty)"
    using m
    by (simp add: three_snapshots_last three_snapshots_instructions pc_of_snapshot_with
          new_Instruction_maps count_at_empty)
  have "branch_to_times (instructions app' ! 0) = [16 \<mapsto> 1]"
    "branch_from_times (instructions app' ! 2) = [0 \<mapsto> 1]"
    "branch_from_times (instructions app' ! 0) = Map.empty"
    "branch_to_times (instructions app' ! 2) = Map.empty"
    using m' by simp_all
  then show ?thesis using h1 h2 h3 a by blast
qed

text \<open>
  C9. A push is refused with "Bad program counter" when the program counter of the current
  state is not below \<^verbatim>\<open>VU1_PROGSIZE\<close> or is not a multiple of 8: the packet yields the
  error, and so does the packet loop that meets it, whatever follows in the trace; no state
  with a longer store results. Otherwise, with the instruction table and the store as
  parse_trace keeps them, the push appends the current state as it is to the end of the
  store, and the current state after the push is the one before it with the four fields of
  the two access records set to zero.
\<close>

theorem push_snapshot_validates_and_resets:
  "(VU1_PROGSIZE D \<le> unat (pc_of D current) \<or> unat (pc_of D current) mod 8 \<noteq> 0 \<longrightarrow>
      apply_packet D app current PushSnapshot = Inl BadProgramCounter
      \<and> parse_packets D version app current (VUTRACE_PUSHSNAPSHOT # trace) = Inl BadProgramCounter)
   \<and> (slots_ok D app \<and> unat (pc_of D current) < VU1_PROGSIZE D
        \<and> unat (pc_of D current) mod 8 = 0 \<longrightarrow>
      (\<exists>app'. apply_packet D app current PushSnapshot =
           Inr (app', current\<lparr>read_addr := 0, read_size := 0, write_addr := 0, write_size := 0\<rparr>)
         \<and> snapshots app' = snapshots app @ [current]))"
proof (intro conjI impI)
  assume bad: "VU1_PROGSIZE D \<le> unat (pc_of D current) \<or> unat (pc_of D current) mod 8 \<noteq> 0"
  then show a: "apply_packet D app current PushSnapshot = Inl BadProgramCounter"
    by (auto simp: push_snapshot_def INSN_PAIR_SIZE_def)
  have "read_packet D version VUTRACE_PUSHSNAPSHOT trace = Inr (PushSnapshot, trace)"
    by (simp add: read_packet_def)
  then show "parse_packets D version app current (VUTRACE_PUSHSNAPSHOT # trace) = Inl BadProgramCounter"
    using a by (simp del: apply_packet.simps)
next
  assume "slots_ok D app \<and> unat (pc_of D current) < VU1_PROGSIZE D
        \<and> unat (pc_of D current) mod 8 = 0"
  then show "\<exists>app'. apply_packet D app current PushSnapshot =
           Inr (app', current\<lparr>read_addr := 0, read_size := 0, write_addr := 0, write_size := 0\<rparr>)
         \<and> snapshots app' = snapshots app @ [current]"
    by (intro push_succeeds) auto
qed

text \<open>
  After the three snapshots: the program counters 4 and 0x4000 are refused, and a push at
  16 is taken.
\<close>

theorem push_snapshot_validates_and_resets_witness:
  "apply_packet vu1_defs (three_snapshots 0) (snapshot_with 4 1 2 3 4) PushSnapshot
      = Inl BadProgramCounter
   \<and> apply_packet vu1_defs (three_snapshots 0) (snapshot_with 0x4000 1 2 3 4) PushSnapshot
      = Inl BadProgramCounter
   \<and> (\<exists>app'. apply_packet vu1_defs (three_snapshots 0) (snapshot_with 16 1 2 3 4) PushSnapshot =
           Inr (app', (snapshot_with 16 1 2 3 4)
                  \<lparr>read_addr := 0, read_size := 0, write_addr := 0, write_size := 0\<rparr>)
         \<and> snapshots app' = snapshots (three_snapshots 0) @ [snapshot_with 16 1 2 3 4])"
proof -
  have b1: "unat (pc_of vu1_defs (snapshot_with 4 1 2 3 4)) mod 8 \<noteq> 0"
    by (simp add: pc_of_snapshot_with)
  have b2: "VU1_PROGSIZE vu1_defs \<le> unat (pc_of vu1_defs (snapshot_with 0x4000 1 2 3 4))"
    by (simp add: pc_of_snapshot_with vu1_progsize)
  have g: "slots_ok vu1_defs (three_snapshots 0)
      \<and> unat (pc_of vu1_defs (snapshot_with 16 1 2 3 4)) < VU1_PROGSIZE vu1_defs
      \<and> unat (pc_of vu1_defs (snapshot_with 16 1 2 3 4)) mod 8 = 0"
    by (simp add: pc_of_snapshot_with vu1_progsize slots_ok_three_snapshots)
  note t1 = push_snapshot_validates_and_resets
    [of vu1_defs "snapshot_with 4 1 2 3 4" "three_snapshots 0" 3 "[]"]
  note t2 = push_snapshot_validates_and_resets
    [of vu1_defs "snapshot_with 0x4000 1 2 3 4" "three_snapshots 0" 3 "[]"]
  note t3 = push_snapshot_validates_and_resets
    [of vu1_defs "snapshot_with 16 1 2 3 4" "three_snapshots 0" 3 "[]"]
  show ?thesis using t1 t2 t3 b1 b2 g by blast
qed

end
